theory Spec2Isabelle
  imports Main "HOL-Library.Sublist" "HOL-Library.List_Lexorder"
begin

section \<open>Strings and errors\<close>

text \<open>
  A Python \<open>str\<close> is a sequence of code points; \<open>ord\<close> of a one-character string is
  a natural number (at most \<open>0x10FFFF\<close>). A string is modelled as the list of its
  code points, so \<open>len\<close> is \<open>length\<close> and \<open>''.join\<close> is \<open>concat\<close>.
\<close>

type_synonym pystr = "nat list"

datatype error =
    IndexError
  | TypeError
  | ValueError
  | FileExistsError
  | FileNotFoundError
  | NotADirectoryError
  | IsADirectoryError

definition is_codepoint :: "nat \<Rightarrow> bool" where
  "is_codepoint c = (c \<le> 0x10FFFF)"

section \<open>The sanitizer\<close>

text \<open>\<open>DROPBOX_FORBIDDEN = {'"', '*', '/', ':', '<', '>', '?', '\\', '|'}\<close>, by code point.\<close>

definition DROPBOX_FORBIDDEN :: "nat set" where
  "DROPBOX_FORBIDDEN = {0x22, 0x2A, 0x2F, 0x3A, 0x3C, 0x3E, 0x3F, 0x5C, 0x7C}"

text \<open>
  \<open>hex(n)[2:]\<close>: the lowercase hexadecimal digits of \<open>n\<close>, most significant first,
  \<open>'0'\<close> for zero. \<open>str.upper\<close> is modelled on the ASCII letters, the only letters
  \<open>hex\<close> produces.
\<close>

definition hex_digit :: "nat \<Rightarrow> nat" where
  "hex_digit d = (if d < 10 then 0x30 + d else 0x57 + d)"

fun hex :: "nat \<Rightarrow> pystr" where
  "hex n = (if n < 16 then [hex_digit n] else hex (n div 16) @ [hex_digit (n mod 16)])"

definition upper_char :: "nat \<Rightarrow> nat" where
  "upper_char c = (if 0x61 \<le> c \<and> c \<le> 0x7A then c - 0x20 else c)"

definition upper :: "pystr \<Rightarrow> pystr" where
  "upper s = map upper_char s"

text \<open>
  \<open>_encode\<close> after \<open>ord(char)\<close>: \<open>'%' * (len(in_hex) // 2) + in_hex.upper()\<close>.
  \<open>ord\<close> raises \<open>TypeError\<close> on a string whose length is not 1.
\<close>

definition encode_ord :: "nat \<Rightarrow> pystr" where
  "encode_ord c = (let in_hex = hex c; pq = length in_hex div 2
                   in replicate pq 0x25 @ upper in_hex)"

definition encode :: "pystr \<Rightarrow> error + pystr" where
  "encode char = (case char of [c] \<Rightarrow> Inr (encode_ord c) | _ \<Rightarrow> Inl TypeError)"

text \<open>The body of the loop of \<open>sanitize\<close>: what is appended to \<open>final_chars\<close> for one character.\<close>

definition escape :: "nat \<Rightarrow> pystr" where
  "escape char = (if char \<in> DROPBOX_FORBIDDEN \<or> char > 65535 then encode_ord char else [char])"

text \<open>
  \<open>sanitize\<close>. \<open>final_chars\<close> is a list of strings; \<open>final_chars[-1]\<close> raises
  \<open>IndexError\<close> on the empty list; \<open>final_chars[-1] in '. '\<close> is Python's substring
  test on strings. Logging is left out.
\<close>

definition sanitize :: "pystr \<Rightarrow> error + pystr" where
  "sanitize name =
     (let final_chars = map escape name in
      if final_chars = [] then Inl IndexError
      else if sublist (last final_chars) [0x2E, 0x20]
      then (case encode (last final_chars) of
              Inl e \<Rightarrow> Inl e
            | Inr enc \<Rightarrow> Inr (concat (butlast final_chars @ [enc])))
      else Inr (concat final_chars))"

text \<open>The name after the per-character pass alone: \<open>''.join(final_chars)\<close> before the last-character rule.\<close>

definition escape_pass :: "pystr \<Rightarrow> pystr" where
  "escape_pass name = concat (map escape name)"

section \<open>Auxiliary notions for the proofs\<close>

text \<open>
  None of these is program code. \<open>sanitized\<close> is the value \<open>sanitize\<close> returns on a
  non-empty name, written with \<open>butlast\<close> and \<open>last\<close>; \<open>from_hex\<close> reads uppercase
  hexadecimal digits back; \<open>token\<close> describes the elements of \<open>final_chars\<close> for a name
  without a percent sign (a single character, or \<open>k\<close> percent signs and as many
  hexadecimal digits as \<open>k\<close> fixes), \<open>final_token\<close> the last element after the
  last-character rule.
\<close>

definition sanitized :: "pystr \<Rightarrow> pystr" where
  "sanitized name = concat (map escape (butlast name)) @
            (if last name = 0x2E \<or> last name = 0x20 then encode_ord (last name)
             else escape (last name))"

definition hex_value :: "nat \<Rightarrow> nat" where
  "hex_value c = (if c < 0x3A then c - 0x30 else c - 0x37)"

definition from_hex :: "pystr \<Rightarrow> nat" where
  "from_hex ds = foldl (\<lambda>acc d. 16 * acc + hex_value d) 0 ds"

definition hex_len_of :: "nat \<Rightarrow> nat" where
  "hex_len_of k = (if k = 1 then 2 else if k = 2 then 5 else 6)"

definition token :: "pystr \<Rightarrow> bool" where
  "token t \<longleftrightarrow> (\<exists>c. c \<noteq> 0x25 \<and> t = [c]) \<or>
     (\<exists>k ds. t = replicate k 0x25 @ ds \<and> 1 \<le> k \<and> ds \<noteq> [] \<and> 0x25 \<notin> set ds \<and>
        length ds = hex_len_of k)"

definition final_token :: "nat \<Rightarrow> pystr" where
  "final_token c = (if c = 0x2E \<or> c = 0x20 then encode_ord c else escape c)"

section \<open>Properties of the sanitizer\<close>

subsection \<open>Hexadecimal digits and escapes\<close>

declare hex.simps [simp del]

lemma hex_nonempty: "hex n \<noteq> []"
  by (subst hex.simps) simp

lemma hex_digit_range: "d < 16 \<Longrightarrow> hex_digit d \<in> {0x30..0x39} \<union> {0x61..0x66}"
  by (auto simp: hex_digit_def)

lemma hex_chars: "c \<in> set (hex n) \<Longrightarrow> c \<in> {0x30..0x39} \<union> {0x61..0x66}"
proof (induction n arbitrary: c rule: hex.induct)
  case (1 n)
  show ?case
  proof (cases "n < 16")
    case True
    with "1.prems" hex_digit_range[of n] show ?thesis
      by (subst (asm) hex.simps) simp
  next
    case False
    have m: "n mod 16 < 16" by simp
    from "1.prems" False have "c \<in> set (hex (n div 16)) \<or> c = hex_digit (n mod 16)"
      by (subst (asm) hex.simps) auto
    with "1.IH"[OF False] hex_digit_range[OF m] show ?thesis by blast
  qed
qed

lemma upper_hex_chars: "c \<in> set (upper (hex n)) \<Longrightarrow> c \<in> {0x30..0x39} \<union> {0x41..0x46}"
proof -
  assume "c \<in> set (upper (hex n))"
  then obtain d where d: "d \<in> set (hex n)" and c: "c = upper_char d"
    by (auto simp: upper_def)
  from hex_chars[OF d] show ?thesis
    unfolding c upper_char_def by auto
qed

lemma hex_length_ge2: "16 \<le> n \<Longrightarrow> 2 \<le> length (hex n)"
  using hex_nonempty[of "n div 16"]
  by (subst hex.simps) (simp add: Suc_le_eq)

lemma encode_ord_chars:
  "c \<in> set (encode_ord n) \<Longrightarrow> c = 0x25 \<or> c \<in> {0x30..0x39} \<union> {0x41..0x46}"
  using upper_hex_chars[of c n] by (auto simp: encode_ord_def Let_def)

lemma encode_ord_nonempty: "encode_ord n \<noteq> []"
  by (simp add: encode_ord_def Let_def upper_def hex_nonempty)

lemma last_encode_ord: "last (encode_ord n) \<in> {0x30..0x39} \<union> {0x41..0x46}"
proof -
  have ne: "upper (hex n) \<noteq> []" by (simp add: upper_def hex_nonempty)
  then have "last (encode_ord n) = last (upper (hex n))"
    by (simp add: encode_ord_def Let_def)
  also have "\<dots> \<in> set (upper (hex n))" using ne by simp
  finally show ?thesis using upper_hex_chars by blast
qed

lemma hd_encode_ord: "16 \<le> n \<Longrightarrow> hd (encode_ord n) = 0x25"
proof -
  assume "16 \<le> n"
  then have "0 < length (hex n) div 2" using hex_length_ge2[of n] by simp
  then obtain k where "length (hex n) div 2 = Suc k" by (cases "length (hex n) div 2") auto
  then show ?thesis by (simp add: encode_ord_def Let_def)
qed

lemma escape_nonempty: "escape c \<noteq> []"
  by (simp add: escape_def encode_ord_nonempty)

lemma escaped_ge16: "c \<in> DROPBOX_FORBIDDEN \<or> c > 65535 \<Longrightarrow> 16 \<le> c"
  by (auto simp: DROPBOX_FORBIDDEN_def)

lemma sublist_pair: "sublist xs [a, b] \<longleftrightarrow> xs = [] \<or> xs = [a] \<or> xs = [b] \<or> xs = [a, b]"
  by (cases xs) (auto simp: sublist_Cons_right prefix_Cons)

lemma sublist_escape:
  "sublist (escape c) [0x2E, 0x20] \<longleftrightarrow> c = 0x2E \<or> c = 0x20"
proof (cases "c \<in> DROPBOX_FORBIDDEN \<or> c > 65535")
  case True
  then have e: "escape c = encode_ord c" by (simp add: escape_def)
  have "hd (encode_ord c) = 0x25" using hd_encode_ord escaped_ge16[OF True] by simp
  then have "\<not> sublist (encode_ord c) [0x2E, 0x20]"
    using encode_ord_nonempty[of c] by (auto simp: sublist_pair)
  moreover have "c \<noteq> 0x2E \<and> c \<noteq> 0x20" using True by (auto simp: DROPBOX_FORBIDDEN_def)
  ultimately show ?thesis using e by simp
next
  case False
  then show ?thesis by (auto simp: escape_def sublist_pair)
qed

lemma escape_dot_space: "c = 0x2E \<or> c = 0x20 \<Longrightarrow> escape c = [c]"
  by (auto simp: escape_def DROPBOX_FORBIDDEN_def)

lemma sanitize_eq:
  assumes "name \<noteq> []"
  shows "sanitize name = Inr (concat (map escape (butlast name)) @
            (if last name = 0x2E \<or> last name = 0x20 then encode_ord (last name)
             else escape (last name)))"
proof -
  have l: "last (map escape name) = escape (last name)" using assms by (simp add: last_map)
  have b: "butlast (map escape name) = map escape (butlast name)" by (simp add: map_butlast)
  have "map escape name = map escape (butlast name @ [last name])"
    using assms by simp
  then have c: "concat (map escape name) = concat (map escape (butlast name)) @ escape (last name)"
    by (simp only: map_append concat_append list.map concat.simps append_Nil2)
  show ?thesis
  proof (cases "last name = 0x2E \<or> last name = 0x20")
    case True
    then have "encode (escape (last name)) = Inr (encode_ord (last name))"
      using escape_dot_space[of "last name"] by (auto simp: encode_def)
    with True show ?thesis
      using assms by (simp add: sanitize_def Let_def l b sublist_escape del: sublist_code)
  next
    case False
    then show ?thesis
      using assms by (simp add: sanitize_def Let_def l c sublist_escape)
  qed
qed

lemma sanitize_empty: "sanitize [] = Inl IndexError"
  by (simp add: sanitize_def)

lemma encode_ord_safe: "c \<in> set (encode_ord n) \<Longrightarrow> c \<notin> DROPBOX_FORBIDDEN \<and> c \<le> 65535"
  using encode_ord_chars[of c n] by (auto simp: DROPBOX_FORBIDDEN_def)

lemma escape_safe: "c \<in> set (escape n) \<Longrightarrow> c \<notin> DROPBOX_FORBIDDEN \<and> c \<le> 65535"
  using encode_ord_safe[of c n] by (auto simp: escape_def split: if_splits)

lemma last_encode_ord_not_dot: "last (encode_ord n) \<noteq> 0x2E \<and> last (encode_ord n) \<noteq> 0x20"
  using last_encode_ord[of n] by auto

lemma last_escape_not_dot:
  "n \<noteq> 0x2E \<Longrightarrow> n \<noteq> 0x20 \<Longrightarrow> last (escape n) \<noteq> 0x2E \<and> last (escape n) \<noteq> 0x20"
  using last_encode_ord_not_dot[of n] by (auto simp: escape_def)

lemma concat_escape_safe:
  "\<forall>c\<in>set xs. c \<notin> DROPBOX_FORBIDDEN \<and> c \<le> 65535 \<Longrightarrow> concat (map escape xs) = xs"
  by (induction xs) (auto simp: escape_def)

lemma sanitize_fixed:
  assumes ne: "out \<noteq> []"
    and safe: "\<forall>c\<in>set out. c \<notin> DROPBOX_FORBIDDEN \<and> c \<le> 65535"
    and l: "last out \<noteq> 0x2E" "last out \<noteq> 0x20"
  shows "sanitize out = Inr out"
proof -
  have "concat (map escape out) = out" using safe by (rule concat_escape_safe)
  moreover have "concat (map escape out) = concat (map escape (butlast out)) @ escape (last out)"
  proof -
    have "map escape out = map escape (butlast out @ [last out])" using ne by simp
    then show ?thesis by (simp only: map_append concat_append list.map concat.simps append_Nil2)
  qed
  ultimately show ?thesis using sanitize_eq[OF ne] l by simp
qed

lemma sanitized_props:
  "sanitized name \<noteq> []"
  "c \<in> set (sanitized name) \<Longrightarrow> c \<notin> DROPBOX_FORBIDDEN \<and> c \<le> 65535"
  "last (sanitized name) \<noteq> 0x2E \<and> last (sanitized name) \<noteq> 0x20"
proof -
  show "sanitized name \<noteq> []"
    by (simp add: sanitized_def encode_ord_nonempty escape_nonempty)
  show "c \<in> set (sanitized name) \<Longrightarrow> c \<notin> DROPBOX_FORBIDDEN \<and> c \<le> 65535"
    using encode_ord_safe[of c "last name"] escape_safe[of c]
    by (auto simp: sanitized_def split: if_splits)
  show "last (sanitized name) \<noteq> 0x2E \<and> last (sanitized name) \<noteq> 0x20"
    using last_encode_ord_not_dot[of "last name"] last_escape_not_dot[of "last name"]
    by (simp add: sanitized_def encode_ord_nonempty escape_nonempty)
qed

lemma hex_small: "n < 16 \<Longrightarrow> hex n = [hex_digit n]"
  by (subst hex.simps) simp

lemma hex_big: "\<not> n < 16 \<Longrightarrow> hex n = hex (n div 16) @ [hex_digit (n mod 16)]"
  by (subst hex.simps) simp

lemmas sanitize_eval = sanitize_def escape_def encode_def encode_ord_def hex_small hex_big
  hex_digit_def upper_def upper_char_def DROPBOX_FORBIDDEN_def Let_def sublist_pair

lemma hex_value_digit: "d < 16 \<Longrightarrow> hex_value (upper_char (hex_digit d)) = d"
  by (auto simp: hex_value_def upper_char_def hex_digit_def)

lemma from_hex_snoc: "from_hex (ds @ [d]) = 16 * from_hex ds + hex_value d"
  by (simp add: from_hex_def)

lemma from_hex_hex: "from_hex (upper (hex n)) = n"
proof (induction n rule: hex.induct)
  case (1 n)
  show ?case
  proof (cases "n < 16")
    case True
    then show ?thesis by (simp add: hex_small upper_def from_hex_def hex_value_digit)
  next
    case False
    have "from_hex (upper (hex n)) = 16 * from_hex (upper (hex (n div 16))) + hex_value (upper_char (hex_digit (n mod 16)))"
      using False by (simp add: hex_big upper_def from_hex_snoc)
    also have "\<dots> = 16 * (n div 16) + n mod 16"
      using "1.IH"[OF False] by (simp add: hex_value_digit)
    finally show ?thesis by simp
  qed
qed

lemma upper_hex_no_percent: "0x25 \<notin> set (upper (hex n))"
  using upper_hex_chars[of "0x25" n] by auto

lemma upper_hex_nonempty: "upper (hex n) \<noteq> []"
  by (simp add: upper_def hex_nonempty)

lemma takeWhile_percent:
  "ds \<noteq> [] \<Longrightarrow> 0x25 \<notin> set ds \<Longrightarrow>
   takeWhile (\<lambda>x. x = 0x25) (replicate k (0x25::nat) @ ds @ r) = replicate k 0x25"
  by (cases ds) (auto simp: takeWhile_append)

lemma percent_split:
  assumes "replicate k (0x25::nat) @ ds @ r = replicate k' 0x25 @ ds' @ r'"
    and "ds \<noteq> []" "0x25 \<notin> set ds" "ds' \<noteq> []" "0x25 \<notin> set ds'"
  shows "k = k' \<and> ds @ r = ds' @ r'"
proof -
  have "replicate k (0x25::nat) = replicate k' 0x25"
    using takeWhile_percent[OF assms(2,3), of k r] takeWhile_percent[OF assms(4,5), of k' r'] assms(1)
    by simp
  then have "k = k'" by (metis length_replicate)
  with assms(1) show ?thesis by simp
qed

lemma encode_ord_inj: "encode_ord c = encode_ord c' \<Longrightarrow> c = c'"
proof -
  assume e: "encode_ord c = encode_ord c'"
  have "replicate (length (hex c) div 2) (0x25::nat) @ upper (hex c) @ [] =
        replicate (length (hex c') div 2) 0x25 @ upper (hex c') @ []"
    using e by (simp add: encode_ord_def Let_def)
  from percent_split[OF this upper_hex_nonempty upper_hex_no_percent upper_hex_nonempty upper_hex_no_percent]
  have "upper (hex c) = upper (hex c')" by simp
  then have "from_hex (upper (hex c)) = from_hex (upper (hex c'))" by simp
  then show ?thesis by (simp add: from_hex_hex)
qed

lemma hex_len1: "n < 16 \<Longrightarrow> length (hex n) = 1"
  by (simp add: hex_small)
lemma hex_len2: "16 \<le> n \<Longrightarrow> n < 0x100 \<Longrightarrow> length (hex n) = 2"
  using hex_len1[of "n div 16"] by (simp add: hex_big)
lemma hex_len3: "0x100 \<le> n \<Longrightarrow> n < 0x1000 \<Longrightarrow> length (hex n) = 3"
  using hex_len2[of "n div 16"] by (simp add: hex_big)
lemma hex_len4: "0x1000 \<le> n \<Longrightarrow> n < 0x10000 \<Longrightarrow> length (hex n) = 4"
  using hex_len3[of "n div 16"] by (simp add: hex_big)
lemma hex_len5: "0x10000 \<le> n \<Longrightarrow> n < 0x100000 \<Longrightarrow> length (hex n) = 5"
  using hex_len4[of "n div 16"] by (simp add: hex_big)
lemma hex_len6: "0x100000 \<le> n \<Longrightarrow> n < 0x1000000 \<Longrightarrow> length (hex n) = 6"
  using hex_len5[of "n div 16"] by (simp add: hex_big)

lemma token_encode_ord:
  assumes "16 \<le> c" "c < 0x100 \<or> 0x10000 \<le> c" "is_codepoint c"
  shows "token (encode_ord c)"
proof -
  have len: "length (hex c) = hex_len_of (length (hex c) div 2) \<and> 1 \<le> length (hex c) div 2"
  proof -
    consider "c < 0x100" | "0x10000 \<le> c" "c < 0x100000" | "0x100000 \<le> c"
      using assms(2) by linarith
    then show ?thesis
    proof cases
      case 1 then show ?thesis using hex_len2[of c] assms(1) by (simp add: hex_len_of_def)
    next
      case 2 then show ?thesis using hex_len5[of c] by (simp add: hex_len_of_def)
    next
      case 3 then show ?thesis using hex_len6[of c] assms(3)
        by (simp add: hex_len_of_def is_codepoint_def)
    qed
  qed
  have "encode_ord c = replicate (length (hex c) div 2) 0x25 @ upper (hex c)"
    by (simp add: encode_ord_def Let_def)
  moreover have "length (upper (hex c)) = hex_len_of (length (hex c) div 2)"
    using len by (simp add: upper_def)
  ultimately show ?thesis
    unfolding token_def using len upper_hex_nonempty[of c] upper_hex_no_percent[of c] by blast
qed

lemma token_escape: "c \<noteq> 0x25 \<Longrightarrow> is_codepoint c \<Longrightarrow> token (escape c)"
proof (cases "c \<in> DROPBOX_FORBIDDEN \<or> c > 65535")
  case True
  assume "is_codepoint c"
  moreover have "16 \<le> c" using escaped_ge16[OF True] .
  moreover have "c < 0x100 \<or> 0x10000 \<le> c" using True by (auto simp: DROPBOX_FORBIDDEN_def)
  ultimately have "token (encode_ord c)" by (simp add: token_encode_ord)
  with True show ?thesis by (simp add: escape_def)
next
  case False
  assume "c \<noteq> 0x25"
  with False show ?thesis by (simp add: escape_def token_def)
qed

lemma token_nonempty: "token t \<Longrightarrow> t \<noteq> []"
  by (auto simp: token_def)

lemma token_prefix_free:
  assumes "token t" "token u" "t @ r = u @ s"
  shows "t = u"
proof -
  from assms(1) consider (p) c where "c \<noteq> 0x25" "t = [c]"
    | (e) k ds where "t = replicate k 0x25 @ ds" "1 \<le> k" "ds \<noteq> []" "0x25 \<notin> set ds" "length ds = hex_len_of k"
    unfolding token_def by blast
  then show ?thesis
  proof cases
    case p
    from assms(2) consider (p') c' where "c' \<noteq> 0x25" "u = [c']"
      | (e') k' ds' where "u = replicate k' 0x25 @ ds'" "1 \<le> k'"
      unfolding token_def by blast
    then show ?thesis
    proof cases
      case p' with p assms(3) show ?thesis by simp
    next
      case e'
      then obtain j where "k' = Suc j" by (cases k') auto
      with e' p assms(3) show ?thesis by simp
    qed
  next
    case e
    from assms(2) consider (p') c' where "c' \<noteq> 0x25" "u = [c']"
      | (e') k' ds' where "u = replicate k' 0x25 @ ds'" "1 \<le> k'" "ds' \<noteq> []" "0x25 \<notin> set ds'" "length ds' = hex_len_of k'"
      unfolding token_def by blast
    then show ?thesis
    proof cases
      case p'
      from e obtain j where "k = Suc j" by (cases k) auto
      with e p' assms(3) show ?thesis by simp
    next
      case e'
      have "replicate k (0x25::nat) @ ds @ r = replicate k' 0x25 @ ds' @ s"
        using assms(3) e(1) e'(1) by simp
      from percent_split[OF this e(3,4) e'(3,4)]
      have k: "k = k'" and eq: "ds @ r = ds' @ s" by simp_all
      have "length ds = length ds'" using e(5) e'(5) k by simp
      with eq have "ds = ds'" by simp
      with k e(1) e'(1) show ?thesis by simp
    qed
  qed
qed

lemma concat_tokens_inj:
  "\<forall>t\<in>set ts. token t \<Longrightarrow> \<forall>u\<in>set us. token u \<Longrightarrow> concat ts = concat us \<Longrightarrow> ts = us"
proof (induction ts arbitrary: us)
  case Nil
  then show ?case
  proof (cases us)
    case (Cons u us')
    with Nil have "token u" "u = []" by auto
    then show ?thesis using token_nonempty by blast
  qed simp
next
  case (Cons t ts)
  show ?case
  proof (cases us)
    case Nil
    with Cons.prems have "token t" "t = []" by auto
    then show ?thesis using token_nonempty by blast
  next
    case (Cons u us')
    with Cons.prems have tu: "token t" "token u" and eq: "t @ concat ts = u @ concat us'"
      by auto
    from token_prefix_free[OF tu eq] have "t = u" .
    moreover from this eq have "concat ts = concat us'" by simp
    then have "ts = us'" using Cons.IH[of us'] Cons.prems(1,2) Cons by auto
    ultimately show ?thesis using Cons by simp
  qed
qed

lemma token_final: "c \<noteq> 0x25 \<Longrightarrow> is_codepoint c \<Longrightarrow> token (final_token c)"
  using token_encode_ord[of c] token_escape[of c]
  by (auto simp: final_token_def is_codepoint_def)

lemma encode_ord_not_single: "16 \<le> c \<Longrightarrow> d \<noteq> 0x25 \<Longrightarrow> encode_ord c \<noteq> [d]"
  using hd_encode_ord[of c] by (metis list.sel(1))

lemma escape_inj:
  assumes "c \<noteq> 0x25" "c' \<noteq> 0x25" "escape c = escape c'"
  shows "c = c'"
proof (cases "c \<in> DROPBOX_FORBIDDEN \<or> c > 65535")
  case True
  note tc = True
  then have ec: "escape c = encode_ord c" by (simp add: escape_def)
  show ?thesis
  proof (cases "c' \<in> DROPBOX_FORBIDDEN \<or> c' > 65535")
    case True
    then have "escape c' = encode_ord c'" by (simp add: escape_def)
    with ec assms(3) show ?thesis using encode_ord_inj by simp
  next
    case False
    then have "escape c' = [c']" by (simp add: escape_def)
    with ec assms(3) encode_ord_not_single[OF escaped_ge16[OF tc] assms(2)] show ?thesis by simp
  qed
next
  case False
  then have ec: "escape c = [c]" by (simp add: escape_def)
  show ?thesis
  proof (cases "c' \<in> DROPBOX_FORBIDDEN \<or> c' > 65535")
    case True
    then have "escape c' = encode_ord c'" by (simp add: escape_def)
    with ec assms(3) encode_ord_not_single[OF escaped_ge16[OF True] assms(1)] show ?thesis by simp
  next
    case False
    then have "escape c' = [c']" by (simp add: escape_def)
    with ec assms(3) show ?thesis by simp
  qed
qed

lemma final_token_inj:
  assumes "c \<noteq> 0x25" "c' \<noteq> 0x25" "final_token c = final_token c'"
  shows "c = c'"
proof -
  have single: "\<And>x y. x = 0x2E \<or> x = 0x20 \<Longrightarrow> y \<noteq> 0x25 \<Longrightarrow> encode_ord x = escape y \<Longrightarrow> x = y"
  proof -
    fix x y :: nat assume x: "x = 0x2E \<or> x = 0x20" and y: "y \<noteq> 0x25" and e: "encode_ord x = escape y"
    have x16: "16 \<le> x" using x by auto
    show "x = y"
    proof (cases "y \<in> DROPBOX_FORBIDDEN \<or> y > 65535")
      case True
      with e show ?thesis using encode_ord_inj by (simp add: escape_def)
    next
      case False
      with e encode_ord_not_single[OF x16 y] show ?thesis by (simp add: escape_def)
    qed
  qed
  show ?thesis
  proof (cases "c = 0x2E \<or> c = 0x20")
    case True
    note tc = True
    show ?thesis
    proof (cases "c' = 0x2E \<or> c' = 0x20")
      case True
      with tc assms(3) show ?thesis using encode_ord_inj by (simp add: final_token_def)
    next
      case False
      with tc assms(3) have "encode_ord c = escape c'" by (simp add: final_token_def)
      from single[OF tc assms(2) this] show ?thesis .
    qed
  next
    case False
    note fc = False
    show ?thesis
    proof (cases "c' = 0x2E \<or> c' = 0x20")
      case True
      with fc assms(3) have "encode_ord c' = escape c" by (simp add: final_token_def)
      from single[OF True assms(1) this] show ?thesis by simp
    next
      case False
      with fc assms(3) have "escape c = escape c'" by (simp add: final_token_def)
      then show ?thesis using escape_inj[OF assms(1,2)] by simp
    qed
  qed
qed

lemma map_escape_inj:
  "0x25 \<notin> set xs \<Longrightarrow> 0x25 \<notin> set ys \<Longrightarrow> map escape xs = map escape ys \<Longrightarrow> xs = ys"
proof (induction xs arbitrary: ys)
  case Nil
  then show ?case by simp
next
  case (Cons x xs)
  then obtain y ys' where ys: "ys = y # ys'" by (cases ys) auto
  with Cons.prems have "escape x = escape y" "x \<noteq> 0x25" "y \<noteq> 0x25" by auto
  then have "x = y" using escape_inj by blast
  moreover have "xs = ys'" using Cons.IH[of ys'] Cons.prems ys by auto
  ultimately show ?case using ys by simp
qed

lemma sanitize_tokens:
  "name \<noteq> [] \<Longrightarrow>
   sanitize name = Inr (concat (map escape (butlast name) @ [final_token (last name)]))"
  using sanitize_eq[of name] by (simp add: final_token_def)

lemma sanitize_inj_aux:
  assumes pa: "0x25 \<notin> set a" and pb: "0x25 \<notin> set b"
    and cp: "\<forall>c\<in>set a \<union> set b. is_codepoint c"
    and eq: "sanitize a = sanitize b"
  shows "a = b"
proof (cases "a = []")
  case True
  show ?thesis
  proof (cases "b = []")
    case False
    with True eq sanitize_tokens[of b] show ?thesis by (simp add: sanitize_empty)
  qed (simp add: True)
next
  case False
  note na = False
  show ?thesis
  proof (cases "b = []")
    case True
    with na eq sanitize_tokens[of a] show ?thesis by (simp add: sanitize_empty)
  next
    case False
    let ?ta = "map escape (butlast a) @ [final_token (last a)]"
    let ?tb = "map escape (butlast b) @ [final_token (last b)]"
    have la: "last a \<in> set a" and lb: "last b \<in> set b" using na False by simp_all
    have ba: "set (butlast a) \<subseteq> set a" and bb: "set (butlast b) \<subseteq> set b"
      by (auto dest: in_set_butlastD)
    have oka: "\<forall>c\<in>set a. c \<noteq> 0x25 \<and> is_codepoint c" using pa cp by auto
    have okb: "\<forall>c\<in>set b. c \<noteq> 0x25 \<and> is_codepoint c" using pb cp by auto
    have "token (final_token (last a))" using oka la token_final by blast
    moreover have "\<forall>c\<in>set (butlast a). token (escape c)" using oka ba token_escape by blast
    ultimately have ta: "\<forall>t\<in>set ?ta. token t" by auto
    have "token (final_token (last b))" using okb lb token_final by blast
    moreover have "\<forall>c\<in>set (butlast b). token (escape c)" using okb bb token_escape by blast
    ultimately have tb: "\<forall>t\<in>set ?tb. token t" by auto
    have "concat ?ta = concat ?tb"
      using eq sanitize_tokens[OF na] sanitize_tokens[OF False] by simp
    from concat_tokens_inj[OF ta tb this]
    have m: "map escape (butlast a) = map escape (butlast b)"
      and f: "final_token (last a) = final_token (last b)" by simp_all
    have "0x25 \<notin> set (butlast a)" "0x25 \<notin> set (butlast b)" using pa pb ba bb by blast+
    then have "butlast a = butlast b"
      using map_escape_inj[OF _ _ m] by blast
    moreover have "last a \<noteq> 0x25" "last b \<noteq> 0x25" using oka okb la lb by blast+
    then have "last a = last b"
      using final_token_inj[OF _ _ f] by blast
    ultimately show ?thesis
      using na False by (metis append_butlast_last_id)
  qed
qed

lemma escape_pass_split:
  "name \<noteq> [] \<Longrightarrow> escape_pass name = concat (map escape (butlast name)) @ escape (last name)"
proof -
  assume "name \<noteq> []"
  then have "map escape name = map escape (butlast name @ [last name])" by simp
  then show ?thesis
    unfolding escape_pass_def
    by (simp only: map_append concat_append list.map concat.simps append_Nil2)
qed

subsection \<open>The claims about the sanitizer\<close>

text \<open>
  Claim C5, as stated: for every input, \<open>sanitize\<close> returns the name in which exactly the
  forbidden characters and the characters above \<open>0xFFFF\<close> are replaced by their escapes
  and every other character is unchanged, that is \<open>escape_pass\<close> of the name. It fails on
  \<open>"a."\<close>: the final dot is neither forbidden nor above \<open>0xFFFF\<close>, and it is replaced.
\<close>

theorem sanitize_replaces_counterexample:
  "sanitize [0x61, 0x2E] = Inr [0x61, 0x25, 0x32, 0x45] \<and>
   escape_pass [0x61, 0x2E] = [0x61, 0x2E] \<and>
   sanitize [0x61, 0x2E] \<noteq> Inr (escape_pass [0x61, 0x2E])"
  by (simp add: sanitize_eval escape_pass_def)

text \<open>
  Claim C5, amended: for every non-empty name, \<open>sanitize\<close> returns the name in which every
  forbidden character and every character above \<open>0xFFFF\<close> is replaced by \<open>h div 2\<close>
  percent signs followed by its \<open>h\<close> uppercase hexadecimal digits, a final dot or space
  is replaced the same way, and every other character is unchanged; the result contains
  no forbidden character.
\<close>

theorem sanitize_replaces:
  assumes "name \<noteq> []"
  shows "\<exists>out. sanitize name = Inr out \<and>
     out = concat (map (\<lambda>c. if c \<in> DROPBOX_FORBIDDEN \<or> c > 0xFFFF
                             then replicate (length (hex c) div 2) 0x25 @ upper (hex c)
                             else [c]) (butlast name)) @
           (if last name \<in> DROPBOX_FORBIDDEN \<or> last name > 0xFFFF \<or>
               last name = 0x2E \<or> last name = 0x20
            then replicate (length (hex (last name)) div 2) 0x25 @ upper (hex (last name))
            else [last name]) \<and>
     set out \<inter> DROPBOX_FORBIDDEN = {}"
proof -
  have e: "escape = (\<lambda>c. if c \<in> DROPBOX_FORBIDDEN \<or> c > 0xFFFF
                             then replicate (length (hex c) div 2) 0x25 @ upper (hex c)
                             else [c])"
    by (rule ext) (simp add: escape_def encode_ord_def Let_def)
  have s: "sanitize name = Inr (sanitized name)"
    using sanitize_eq[OF assms] by (simp add: sanitized_def)
  have "sanitized name = concat (map escape (butlast name)) @
           (if last name \<in> DROPBOX_FORBIDDEN \<or> last name > 0xFFFF \<or>
               last name = 0x2E \<or> last name = 0x20
            then replicate (length (hex (last name)) div 2) 0x25 @ upper (hex (last name))
            else [last name])"
    by (simp add: sanitized_def escape_def encode_ord_def Let_def)
  moreover have "set (sanitized name) \<inter> DROPBOX_FORBIDDEN = {}"
    using sanitized_props(2)[of _ name] by blast
  ultimately show ?thesis using s unfolding e by simp
qed

theorem sanitize_replaces_witness:
  "[0x61, 0x3F, 0x1F600, 0x2E] \<noteq> ([]::nat list) \<and>
   sanitize [0x61, 0x3F, 0x1F600, 0x2E] =
     Inr [0x61, 0x25, 0x33, 0x46, 0x25, 0x25, 0x31, 0x46, 0x36, 0x30, 0x30, 0x25, 0x32, 0x45] \<and>
   set [0x61, 0x25, 0x33, 0x46, 0x25, 0x25, 0x31, 0x46, 0x36, 0x30, 0x30, 0x25, 0x32, 0x45]
     \<inter> DROPBOX_FORBIDDEN = {}"
  using sanitize_replaces[of "[0x61, 0x3F, 0x1F600, 0x2E]"]
  by (simp add: sanitize_eval)

text \<open>
  Claim C9: if the name after the per-character pass ends in a dot, \<open>sanitize\<close> returns
  that name with the final dot replaced by \<open>%2E\<close>; if it ends in a space, with the final
  space replaced by \<open>%20\<close>; these are the escapes that \<open>_encode\<close> gives for the two
  characters. Otherwise it returns the name after the pass as it is. The name after the
  pass ends in a dot (a space) exactly when the given name does, and no name returned by
  \<open>sanitize\<close> ends in a dot or a space.
\<close>

theorem sanitize_trailing:
  "(escape_pass name \<noteq> [] \<and> last (escape_pass name) = 0x2E \<longrightarrow>
      sanitize name = Inr (butlast (escape_pass name) @ [0x25, 0x32, 0x45]))
   \<and> (escape_pass name \<noteq> [] \<and> last (escape_pass name) = 0x20 \<longrightarrow>
      sanitize name = Inr (butlast (escape_pass name) @ [0x25, 0x32, 0x30]))
   \<and> (escape_pass name \<noteq> [] \<and>
      (last (escape_pass name) = 0x2E \<or> last (escape_pass name) = 0x20) \<longrightarrow>
      sanitize name = Inr (butlast (escape_pass name) @ encode_ord (last (escape_pass name))))
   \<and> (escape_pass name \<noteq> [] \<and>
      last (escape_pass name) \<noteq> 0x2E \<and> last (escape_pass name) \<noteq> 0x20 \<longrightarrow>
      sanitize name = Inr (escape_pass name))
   \<and> (name \<noteq> [] \<longrightarrow>
      (last (escape_pass name) = 0x2E \<longleftrightarrow> last name = 0x2E) \<and>
      (last (escape_pass name) = 0x20 \<longleftrightarrow> last name = 0x20))
   \<and> (sanitize name = Inr out \<longrightarrow> out \<noteq> [] \<and> last out \<noteq> 0x2E \<and> last out \<noteq> 0x20)"
proof -
  have dot: "encode_ord 0x2E = [0x25, 0x32, 0x45]" and space: "encode_ord 0x20 = [0x25, 0x32, 0x30]"
    by (simp_all add: sanitize_eval)
  have l: "last (escape_pass name) = last (escape (last name))" if "name \<noteq> []"
    using escape_pass_split[OF that] escape_nonempty by simp
  have ends: "(last (escape_pass name) = 0x2E \<longleftrightarrow> last name = 0x2E) \<and>
              (last (escape_pass name) = 0x20 \<longleftrightarrow> last name = 0x20)" if "name \<noteq> []"
  proof (cases "last name = 0x2E \<or> last name = 0x20")
    case True
    then have "escape (last name) = [last name]" by (rule escape_dot_space)
    with l[OF that] show ?thesis by simp
  next
    case False
    with l[OF that] last_escape_not_dot[of "last name"] show ?thesis by auto
  qed
  have repl: "sanitize name = Inr (butlast (escape_pass name) @ encode_ord (last (escape_pass name)))"
    if a: "escape_pass name \<noteq> []"
      and b: "last (escape_pass name) = 0x2E \<or> last (escape_pass name) = 0x20"
  proof -
    from a have ne: "name \<noteq> []" by (auto simp: escape_pass_def)
    have d: "last name = 0x2E \<or> last name = 0x20" using b ends[OF ne] by auto
    then have e: "escape (last name) = [last name]" by (rule escape_dot_space)
    have "escape_pass name = concat (map escape (butlast name)) @ [last name]"
      using escape_pass_split[OF ne] e by simp
    then have "butlast (escape_pass name) = concat (map escape (butlast name))"
      and "last (escape_pass name) = last name" by simp_all
    then show ?thesis using sanitize_eq[OF ne] d by simp
  qed
  have keep: "sanitize name = Inr (escape_pass name)"
    if a: "escape_pass name \<noteq> []"
      and b: "last (escape_pass name) \<noteq> 0x2E" "last (escape_pass name) \<noteq> 0x20"
  proof -
    from a have ne: "name \<noteq> []" by (auto simp: escape_pass_def)
    have "\<not> (last name = 0x2E \<or> last name = 0x20)" using b ends[OF ne] by auto
    then show ?thesis using sanitize_eq[OF ne] escape_pass_split[OF ne] by simp
  qed
  have out: "out \<noteq> [] \<and> last out \<noteq> 0x2E \<and> last out \<noteq> 0x20" if s: "sanitize name = Inr out"
  proof -
    from s have ne: "name \<noteq> []" by (auto simp: sanitize_empty)
    have "out = sanitized name" using sanitize_eq[OF ne] s by (simp add: sanitized_def)
    then show ?thesis using sanitized_props(1,3)[of name] by simp
  qed
  show ?thesis
  proof (intro conjI impI)
    assume "escape_pass name \<noteq> [] \<and> last (escape_pass name) = 0x2E"
    then show "sanitize name = Inr (butlast (escape_pass name) @ [0x25, 0x32, 0x45])"
      using repl dot by simp
  next
    assume "escape_pass name \<noteq> [] \<and> last (escape_pass name) = 0x20"
    then show "sanitize name = Inr (butlast (escape_pass name) @ [0x25, 0x32, 0x30])"
      using repl space by simp
  next
    assume "escape_pass name \<noteq> [] \<and>
      (last (escape_pass name) = 0x2E \<or> last (escape_pass name) = 0x20)"
    then show "sanitize name =
      Inr (butlast (escape_pass name) @ encode_ord (last (escape_pass name)))"
      using repl by blast
  next
    assume "escape_pass name \<noteq> [] \<and>
      last (escape_pass name) \<noteq> 0x2E \<and> last (escape_pass name) \<noteq> 0x20"
    then show "sanitize name = Inr (escape_pass name)" using keep by blast
  next
    assume "name \<noteq> []"
    then show "last (escape_pass name) = 0x2E \<longleftrightarrow> last name = 0x2E"
      and "last (escape_pass name) = 0x20 \<longleftrightarrow> last name = 0x20"
      using ends by blast+
  next
    assume "sanitize name = Inr out"
    then show "out \<noteq> []" "last out \<noteq> 0x2E" "last out \<noteq> 0x20" using out by blast+
  qed
qed

theorem sanitize_trailing_witness:
  "escape_pass [0x61, 0x2E] = [0x61, 0x2E] \<and>
   sanitize [0x61, 0x2E] = Inr [0x61, 0x25, 0x32, 0x45] \<and>
   escape_pass [0x61, 0x20] = [0x61, 0x20] \<and>
   sanitize [0x61, 0x20] = Inr [0x61, 0x25, 0x32, 0x30] \<and>
   escape_pass [0x2E, 0x3F] = [0x2E, 0x25, 0x33, 0x46] \<and>
   sanitize [0x2E, 0x3F] = Inr [0x2E, 0x25, 0x33, 0x46] \<and>
   last [0x61, 0x25, 0x32, 0x45] \<noteq> (0x2E::nat) \<and> last [0x61, 0x25, 0x32, 0x30] \<noteq> (0x20::nat)"
  using sanitize_trailing[of "[0x61, 0x2E]" "[0x61, 0x25, 0x32, 0x45]"]
    sanitize_trailing[of "[0x61, 0x20]" "[0x61, 0x25, 0x32, 0x30]"]
    sanitize_trailing[of "[0x2E, 0x3F]" "[0x2E, 0x25, 0x33, 0x46]"]
  by (simp add: sanitize_eval escape_pass_def)

text \<open>
  Claim C10: on every non-empty name \<open>sanitize\<close> returns a name that \<open>sanitize\<close> maps
  to itself; that name holds no forbidden character and no character above \<open>0xFFFF\<close>,
  and does not end in a dot or a space.
\<close>

theorem sanitize_idempotent:
  assumes "name \<noteq> []"
  shows "\<exists>out. sanitize name = Inr out \<and> sanitize out = Inr out \<and>
           set out \<inter> DROPBOX_FORBIDDEN = {} \<and> (\<forall>c\<in>set out. c \<le> 65535) \<and>
           out \<noteq> [] \<and> last out \<noteq> 0x2E \<and> last out \<noteq> 0x20"
proof -
  have s: "sanitize name = Inr (sanitized name)"
    using sanitize_eq[OF assms] by (simp add: sanitized_def)
  have safe: "\<forall>c\<in>set (sanitized name). c \<notin> DROPBOX_FORBIDDEN \<and> c \<le> 65535"
    using sanitized_props(2) by blast
  have "sanitize (sanitized name) = Inr (sanitized name)"
    using sanitize_fixed[OF sanitized_props(1) safe] sanitized_props(3) by blast
  with s safe sanitized_props(1,3) show ?thesis by blast
qed

theorem sanitize_idempotent_witness:
  "[0x61, 0x3F, 0x2E] \<noteq> ([]::nat list) \<and>
   sanitize [0x61, 0x3F, 0x2E] = Inr [0x61, 0x25, 0x33, 0x46, 0x25, 0x32, 0x45] \<and>
   sanitize [0x61, 0x25, 0x33, 0x46, 0x25, 0x32, 0x45] = Inr [0x61, 0x25, 0x33, 0x46, 0x25, 0x32, 0x45]"
  using sanitize_idempotent[of "[0x61, 0x3F, 0x2E]"]
  by (simp add: sanitize_eval)

text \<open>
  Claim C7, as stated: \<open>sanitize\<close> is injective. It is not: the name consisting of a
  double quote and the three-character name \<open>%22\<close> are both sent to \<open>%22\<close>, since the
  percent sign itself is never escaped.
\<close>

theorem sanitize_injective_counterexample:
  "[0x22] \<noteq> [0x25, 0x32, 0x32::nat] \<and>
   sanitize [0x22] = Inr [0x25, 0x32, 0x32] \<and> sanitize [0x25, 0x32, 0x32] = Inr [0x25, 0x32, 0x32]"
  by (simp add: sanitize_eval)

text \<open>
  Claim C7, amended: \<open>sanitize\<close> is injective on the names that contain no percent sign
  (all characters being code points, at most \<open>0x10FFFF\<close>): two distinct such names have
  distinct results.
\<close>

theorem sanitize_injective_without_percent:
  assumes "0x25 \<notin> set a" and "0x25 \<notin> set b"
    and "\<forall>c\<in>set a \<union> set b. is_codepoint c"
    and "a \<noteq> b"
  shows "sanitize a \<noteq> sanitize b"
  using sanitize_inj_aux[OF assms(1,2,3)] assms(4) by blast

theorem sanitize_injective_witness:
  "0x25 \<notin> set [0x61, 0x2E::nat] \<and> 0x25 \<notin> set [0x61, 0x3F::nat] \<and>
   is_codepoint 0x61 \<and> is_codepoint 0x2E \<and> is_codepoint 0x3F \<and>
   [0x61, 0x2E] \<noteq> [0x61, 0x3F::nat] \<and>
   sanitize [0x61, 0x2E] \<noteq> sanitize [0x61, 0x3F]"
  using sanitize_injective_without_percent[of "[0x61, 0x2E]" "[0x61, 0x3F]"]
  by (simp add: is_codepoint_def)

section \<open>Paths\<close>

text \<open>
  A \<open>pathlib\<close> path on POSIX: whether it has the root \<open>/\<close>, and its parts. \<open>parse_path\<close>
  is \<open>pathlib.Path(s)\<close> for a string: the string is split at \<open>/\<close>, empty parts and
  \<open>.\<close> parts are dropped, \<open>..\<close> is kept (the POSIX root of exactly two slashes is not
  told apart from \<open>/\<close>). \<open>joinpath\<close> is the operator \<open>/\<close>, \<open>str_of\<close> is \<open>str\<close>,
  \<open>relative_to\<close> raises \<open>ValueError\<close> when the path is not at or below the other one.
  \<open>ascii\<close> writes a string constant as code points.
\<close>

definition ascii :: "string \<Rightarrow> pystr" where
  "ascii s = map of_char s"

datatype path = Path (absolute: bool) (parts: "pystr list")

fun split_sep :: "nat \<Rightarrow> pystr \<Rightarrow> pystr list" where
  "split_sep sep [] = [[]]"
| "split_sep sep (c # cs) =
     (if c = sep then [] # split_sep sep cs
      else (case split_sep sep cs of x # xs \<Rightarrow> (c # x) # xs | [] \<Rightarrow> [[c]]))"

definition parse_path :: "pystr \<Rightarrow> path" where
  "parse_path s = Path (s \<noteq> [] \<and> hd s = 0x2F)
                       (filter (\<lambda>p. p \<noteq> [] \<and> p \<noteq> [0x2E]) (split_sep 0x2F s))"

fun join_str :: "pystr \<Rightarrow> pystr list \<Rightarrow> pystr" where
  "join_str sep [] = []"
| "join_str sep [x] = x"
| "join_str sep (x # y # ys) = x @ sep @ join_str sep (y # ys)"

definition str_of :: "path \<Rightarrow> pystr" where
  "str_of p = (if parts p = [] then (if absolute p then [0x2F] else [0x2E])
               else (if absolute p then [0x2F] else []) @ join_str [0x2F] (parts p))"

definition joinpath :: "path \<Rightarrow> path \<Rightarrow> path" where
  "joinpath d p = (if absolute p then p else Path (absolute d) (parts d @ parts p))"

definition parents :: "path \<Rightarrow> path list" where
  "parents p = map (\<lambda>k. Path (absolute p) (take k (parts p))) (rev [0..<length (parts p)])"

definition parent :: "path \<Rightarrow> path" where
  "parent p = Path (absolute p) (butlast (parts p))"

definition relative_to :: "path \<Rightarrow> path \<Rightarrow> error + path" where
  "relative_to p other =
     (if absolute p = absolute other \<and> prefix (parts other) (parts p)
      then Inr (Path False (drop (length (parts other)) (parts p)))
      else Inl ValueError)"

section \<open>The diff reporter\<close>




















section \<open>The build area\<close>

text \<open>
  The build area is a store of the paths created so far, each a directory or an archive
  blob; a blob is the list of its entries, each the entry name (\<open>arcname\<close>) and the path
  of the file added. \<open>create\<close> is exclusive creation, of a directory (\<open>Path.mkdir\<close>) or
  of a blob (\<open>tarfile.open(..., 'x:bz2')\<close>): it raises when the path exists or its parent
  is not a directory. \<open>iterdir\<close> lists the paths of the entries of a directory, each the
  directory joined with the entry's name. \<open>dec\<close> is \<open>str\<close> of a natural number;
  \<open>tar_name\<close> and \<open>tar_name_num\<close> are the two format strings of \<open>_get_name\<close>.
\<close>

fun dec :: "nat \<Rightarrow> pystr" where
  "dec n = (if n < 10 then [0x30 + n] else dec (n div 10) @ [0x30 + n mod 10])"

declare dec.simps [simp del]

definition tar_name :: "pystr \<Rightarrow> pystr" where
  "tar_name basename = basename @ ascii ''.tar.bz2''"

definition tar_name_num :: "pystr \<Rightarrow> nat \<Rightarrow> pystr" where
  "tar_name_num basename num = basename @ ascii ''-'' @ dec num @ ascii ''.tar.bz2''"

datatype bnode = BDir | Blob "(pystr \<times> path) list"

type_synonym store = "(path \<times> bnode) list"

definition entry_path :: "path \<Rightarrow> pystr \<Rightarrow> path" where
  "entry_path d n = Path (absolute d) (parts d @ [n])"

definition iterdir :: "store \<Rightarrow> path \<Rightarrow> error + path list" where
  "iterdir bs directory =
     (case map_of bs directory of
        None \<Rightarrow> Inl FileNotFoundError
      | Some (Blob es) \<Rightarrow> Inl NotADirectoryError
      | Some BDir \<Rightarrow>
          Inr (filter (\<lambda>p. parts p \<noteq> [] \<and> parent p = directory) (map fst bs)))"

definition create :: "path \<Rightarrow> bnode \<Rightarrow> store \<Rightarrow> error + store" where
  "create p b bs =
     (if map_of bs p \<noteq> None then Inl FileExistsError
      else (case map_of bs (parent p) of
              None \<Rightarrow> Inl FileNotFoundError
            | Some (Blob es) \<Rightarrow> Inl NotADirectoryError
            | Some BDir \<Rightarrow> Inr (bs @ [(p, b)])))"

subsection \<open>The loop of \<open>_get_name\<close> terminates\<close>

definition from_dec :: "pystr \<Rightarrow> nat" where
  "from_dec ds = foldl (\<lambda>acc d. 10 * acc + (d - 0x30)) 0 ds"

lemma dec_small: "n < 10 \<Longrightarrow> dec n = [0x30 + n]"
  by (subst dec.simps) simp

lemma dec_big: "\<not> n < 10 \<Longrightarrow> dec n = dec (n div 10) @ [0x30 + n mod 10]"
  by (subst dec.simps) simp

lemma from_dec_dec: "from_dec (dec n) = n"
proof (induction n rule: dec.induct)
  case (1 n)
  show ?case
  proof (cases "n < 10")
    case True
    then show ?thesis by (simp add: dec_small from_dec_def)
  next
    case False
    have "from_dec (dec n) = 10 * from_dec (dec (n div 10)) + n mod 10"
      using False by (simp add: dec_big from_dec_def)
    then show ?thesis using "1.IH"[OF False] by simp
  qed
qed

lemma dec_inj: "dec m = dec n \<Longrightarrow> m = n"
  by (metis from_dec_dec)

lemma dec_chars: "c \<in> set (dec n) \<Longrightarrow> 0x30 \<le> c \<and> c \<le> 0x39"
proof (induction n arbitrary: c rule: dec.induct)
  case (1 n)
  show ?case
  proof (cases "n < 10")
    case True
    with "1.prems" show ?thesis by (simp add: dec_small)
  next
    case False
    have "n mod 10 < 10" by simp
    then have "0x30 + n mod 10 \<le> 0x39" by linarith
    moreover from "1.prems" False
    have "c \<in> set (dec (n div 10)) \<or> c = 0x30 + n mod 10" by (auto simp: dec_big)
    ultimately show ?thesis using "1.IH"[OF False] by auto
  qed
qed

lemma split_sep_nonempty: "split_sep sep s \<noteq> []"
  by (induction s) (auto split: list.splits)

lemma split_sep_append:
  "sep \<notin> set t \<Longrightarrow>
   split_sep sep (b @ t) = butlast (split_sep sep b) @ [last (split_sep sep b) @ t]"
proof (induction b)
  case Nil
  then show ?case
  proof (induction t)
    case Nil
    show ?case by simp
  next
    case (Cons c t)
    then have "split_sep sep t = [t]" by simp
    with Cons.prems show ?case by simp
  qed
next
  case (Cons c b)
  show ?case
  proof (cases "c = sep")
    case True
    with Cons show ?thesis by (simp add: split_sep_nonempty)
  next
    case False
    obtain x xs where x: "split_sep sep b = x # xs"
      using split_sep_nonempty[of sep b] by (cases "split_sep sep b") auto
    show ?thesis
    proof (cases xs)
      case Nil
      with x False Cons show ?thesis by simp
    next
      case (Cons y ys)
      with x False Cons.IH[OF Cons.prems] show ?thesis by simp
    qed
  qed
qed

lemma tar_suffix_props:
  "0x2F \<notin> set (ascii ''-'' @ dec k @ ascii ''.tar.bz2'')"
  "0x2F \<notin> set (ascii ''.tar.bz2'')"
  using dec_chars[of "0x2F" k] by (auto simp: ascii_def)

lemma last_parts_parse:
  assumes "0x2F \<notin> set t" "2 \<le> length t"
  shows "parts (parse_path (b @ t)) =
           filter (\<lambda>p. p \<noteq> [] \<and> p \<noteq> [0x2E]) (butlast (split_sep 0x2F b))
           @ [last (split_sep 0x2F b) @ t]"
proof -
  have "last (split_sep 0x2F b) @ t \<noteq> []" using assms(2) by auto
  moreover have "last (split_sep 0x2F b) @ t \<noteq> [0x2E]"
  proof
    assume "last (split_sep 0x2F b) @ t = [0x2E]"
    then have "length (last (split_sep 0x2F b) @ t) = 1" by simp
    with assms(2) show False by simp
  qed
  ultimately show ?thesis
    by (simp add: parse_path_def split_sep_append[OF assms(1)])
qed

lemma candidate_inj:
  assumes "parse_path (tar_name_num basename j) = parse_path (tar_name_num basename k)"
  shows "j = k"
proof -
  let ?t = "\<lambda>k. ascii ''-'' @ dec k @ ascii ''.tar.bz2''"
  have len: "\<And>k. 2 \<le> length (?t k)" by (simp add: ascii_def)
  have "parts (parse_path (basename @ ?t j)) = parts (parse_path (basename @ ?t k))"
    using assms by (simp add: tar_name_num_def)
  then have "last (split_sep 0x2F basename) @ ?t j = last (split_sep 0x2F basename) @ ?t k"
    unfolding last_parts_parse[OF tar_suffix_props(1) len] by simp
  then have "dec j = dec k" by simp
  then show ?thesis by (rule dec_inj)
qed

function get_name_loop :: "pystr \<Rightarrow> path list \<Rightarrow> path \<Rightarrow> nat \<Rightarrow> path" where
  "get_name_loop basename listing fpath num =
     (if fpath \<in> set listing
      then get_name_loop basename listing (parse_path (tar_name_num basename num)) (Suc num)
      else fpath)"
  by pat_completeness auto
termination
proof (relation "measure (\<lambda>(basename, listing, fpath, num).
          card (set listing \<inter> (\<lambda>k. parse_path (tar_name_num basename k)) ` {num..})
          + (if fpath \<in> set listing then 1 else 0))")
  fix basename :: pystr and listing :: "path list" and fpath :: path and num :: nat
  assume "fpath \<in> set listing"
  let ?cand = "\<lambda>k. parse_path (tar_name_num basename k)"
  let ?S = "set listing"
  have split: "?cand ` {num..} = insert (?cand num) (?cand ` {Suc num..})"
  proof -
    have "{num..} = insert num {Suc num..}" by auto
    then show ?thesis by (metis image_insert)
  qed
  have notin: "?cand num \<notin> ?cand ` {Suc num..}"
  proof
    assume "?cand num \<in> ?cand ` {Suc num..}"
    then obtain k where "Suc num \<le> k" "?cand num = ?cand k" by auto
    then show False using candidate_inj[of basename num k] by simp
  qed
  have fin: "finite (?S \<inter> ?cand ` {Suc num..})" by simp
  have "card (?S \<inter> ?cand ` {Suc num..}) + (if ?cand num \<in> ?S then 1 else 0)
        = card (?S \<inter> ?cand ` {num..})"
  proof (cases "?cand num \<in> ?S")
    case True
    then have "?S \<inter> ?cand ` {num..} = insert (?cand num) (?S \<inter> ?cand ` {Suc num..})"
      unfolding split by auto
    moreover have "?cand num \<notin> ?S \<inter> ?cand ` {Suc num..}" using notin by simp
    ultimately show ?thesis using fin True by simp
  next
    case False
    then have "?S \<inter> ?cand ` {num..} = ?S \<inter> ?cand ` {Suc num..}"
      unfolding split by auto
    with False show ?thesis by simp
  qed
  with \<open>fpath \<in> set listing\<close>
  show "((basename, listing, ?cand num, Suc num), basename, listing, fpath, num)
          \<in> measure (\<lambda>(basename, listing, fpath, num).
                card (set listing \<inter> (\<lambda>k. parse_path (tar_name_num basename k)) ` {num..})
                + (if fpath \<in> set listing then 1 else 0))"
    by simp
qed simp

declare get_name_loop.simps [simp del]

definition get_name :: "pystr \<Rightarrow> path \<Rightarrow> store \<Rightarrow> error + path" where
  "get_name basename directory bs =
     (case iterdir bs directory of
        Inl e \<Rightarrow> Inl e
      | Inr listing \<Rightarrow>
          Inr (joinpath directory
                 (get_name_loop basename listing (parse_path (tar_name basename)) 1)))"

section \<open>The archive builder and the tree partitioner\<close>

text \<open>
  The source tree: a file (with whether \<open>os.access(..., os.R_OK)\<close> holds) or a directory
  with named entries. The functions below take, next to the path \<open>rootdir\<close>, the content
  of the directory at that path, and read the file system under \<open>rootdir\<close> from it; the
  tree has no symbolic links, the names in a directory are file names (not empty, without
  \<open>/\<close>), and the build area lies outside of what is explored.

  \<open>add_files\<close> is the loop over \<open>filenames\<close> in \<open>build_tree\<close>; \<open>walk\<close> is the loop over
  \<open>os.walk\<close>, top-down, with the pruning of an ignored directory. \<open>pack_entries\<close> is the
  loop of \<open>pack_files\<close>. \<open>explore_nodes\<close> is the loop of \<open>explore\<close> over the sorted
  listing, with \<open>all_files\<close> and the build area as its state; \<open>grouped\<close> is the test
  \<open>any(group == node or group in node.parents for group in group_levels)\<close> and
  \<open>group_levels_sub\<close> the dictionary passed to the recursive call. Logging is left out.
\<close>

datatype fsnode = File bool | Dir "(pystr \<times> fsnode) list"

type_synonym entries = "(pystr \<times> path) list"

fun add_files :: "path \<Rightarrow> path \<Rightarrow> (pystr \<times> fsnode) list \<Rightarrow> path set \<Rightarrow> error + entries" where
  "add_files rootdir dirpath [] to_ignore = Inr []"
| "add_files rootdir dirpath ((fname, Dir sub) # rest) to_ignore =
     add_files rootdir dirpath rest to_ignore"
| "add_files rootdir dirpath ((fname, File readable) # rest) to_ignore =
     (let fpath = entry_path dirpath fname in
      if fpath \<in> to_ignore then add_files rootdir dirpath rest to_ignore
      else if \<not> readable then add_files rootdir dirpath rest to_ignore
      else (case relative_to fpath rootdir of
              Inl e \<Rightarrow> Inl e
            | Inr relative_path \<Rightarrow>
                (case add_files rootdir dirpath rest to_ignore of
                   Inl e \<Rightarrow> Inl e
                 | Inr es \<Rightarrow> Inr ((str_of relative_path, fpath) # es))))"

fun walk :: "path \<Rightarrow> path \<Rightarrow> (pystr \<times> fsnode) list \<Rightarrow> path set \<Rightarrow> error + entries"
  and walk_dirs :: "path \<Rightarrow> path \<Rightarrow> (pystr \<times> fsnode) list \<Rightarrow> path set \<Rightarrow> error + entries"
where
  "walk rootdir dirpath content to_ignore =
     (if dirpath \<in> to_ignore then Inr []
      else (case add_files rootdir dirpath content to_ignore of
              Inl e \<Rightarrow> Inl e
            | Inr es \<Rightarrow>
                (case walk_dirs rootdir dirpath content to_ignore of
                   Inl e \<Rightarrow> Inl e
                 | Inr es' \<Rightarrow> Inr (es @ es'))))"
| "walk_dirs rootdir dirpath [] to_ignore = Inr []"
| "walk_dirs rootdir dirpath ((dname, File readable) # rest) to_ignore =
     walk_dirs rootdir dirpath rest to_ignore"
| "walk_dirs rootdir dirpath ((dname, Dir sub) # rest) to_ignore =
     (case walk rootdir (entry_path dirpath dname) sub to_ignore of
        Inl e \<Rightarrow> Inl e
      | Inr es \<Rightarrow>
          (case walk_dirs rootdir dirpath rest to_ignore of
             Inl e \<Rightarrow> Inl e
           | Inr es' \<Rightarrow> Inr (es @ es')))"

definition build_tree ::
  "(pystr \<times> fsnode) list \<Rightarrow> path \<Rightarrow> path \<Rightarrow> path \<Rightarrow> path set \<Rightarrow> store \<Rightarrow> error + store" where
  "build_tree sub rootdir builddir node to_ignore bs =
     (case sanitize (str_of node) of
        Inl e \<Rightarrow> Inl e
      | Inr sane_name \<Rightarrow>
          (case get_name sane_name builddir bs of
             Inl e \<Rightarrow> Inl e
           | Inr fname \<Rightarrow>
               (case create fname (Blob []) bs of
                  Inl e \<Rightarrow> Inl e
                | Inr opened \<Rightarrow>
                    (case walk rootdir (joinpath rootdir node) sub to_ignore of
                       Inl e \<Rightarrow> Inl e
                     | Inr es \<Rightarrow> Inr (bs @ [(fname, Blob es)])))))"

fun lookup_rel :: "(pystr \<times> fsnode) list \<Rightarrow> pystr list \<Rightarrow> fsnode option" where
  "lookup_rel content [] = Some (Dir content)"
| "lookup_rel content [n] = map_of content n"
| "lookup_rel content (n # ns) =
     (case map_of content n of Some (Dir sub) \<Rightarrow> lookup_rel sub ns | _ \<Rightarrow> None)"

definition access :: "(pystr \<times> fsnode) list \<Rightarrow> path \<Rightarrow> bool" where
  "access content fname =
     (case lookup_rel content (parts fname) of Some (File readable) \<Rightarrow> readable | _ \<Rightarrow> False)"

definition pack_entries :: "(pystr \<times> fsnode) list \<Rightarrow> path \<Rightarrow> path list \<Rightarrow> entries" where
  "pack_entries content rootdir all_files =
     map (\<lambda>fname. (str_of fname, joinpath rootdir fname))
         (filter (access content) all_files)"

definition pack_files ::
  "(pystr \<times> fsnode) list \<Rightarrow> path \<Rightarrow> path \<Rightarrow> path list \<Rightarrow> store \<Rightarrow> error + store" where
  "pack_files content rootdir builddir all_files bs =
     (if all_files = [] then Inr bs
      else (case get_name (ascii ''_packed_files'') builddir bs of
              Inl e \<Rightarrow> Inl e
            | Inr tarfpath \<Rightarrow>
                (case create tarfpath (Blob []) bs of
                   Inl e \<Rightarrow> Inl e
                 | Inr opened \<Rightarrow>
                     Inr (bs @ [(tarfpath, Blob (pack_entries content rootdir all_files))]))))"

type_synonym group_levels = "(path \<times> int) list"

definition grouped :: "group_levels \<Rightarrow> path \<Rightarrow> bool" where
  "grouped group_levels node =
     list_ex (\<lambda>(group, v). group = node \<or> group \<in> set (parents node)) group_levels"

definition group_levels_sub :: "group_levels \<Rightarrow> group_levels" where
  "group_levels_sub group_levels = map (\<lambda>(k, v). (k, v - 1)) (filter (\<lambda>(k, v). v > 1) group_levels)"

lemma size_insort_key:
  "size_list f (insort_key k x xs) = size_list f (x # xs)"
  by (induction xs) auto

lemma size_sort_key: "size_list f (sort_key k xs) = size_list f xs"
  by (induction xs) (auto simp: size_insort_key)

function (sequential)
  explore :: "(pystr \<times> fsnode) list \<Rightarrow> path \<Rightarrow> path \<Rightarrow> group_levels \<Rightarrow> path set
                \<Rightarrow> store \<Rightarrow> error + store"
  and explore_nodes :: "(pystr \<times> fsnode) list \<Rightarrow> path \<Rightarrow> path \<Rightarrow> group_levels \<Rightarrow> path set
                \<Rightarrow> path list \<Rightarrow> store \<Rightarrow> error + path list \<times> store"
where
  "explore content rootdir builddir group_levels to_ignore bs =
     (case explore_nodes (sort_key fst content) rootdir builddir group_levels to_ignore [] bs of
        Inl e \<Rightarrow> Inl e
      | Inr (all_files, bs') \<Rightarrow> pack_files content rootdir builddir all_files bs')"
| "explore_nodes [] rootdir builddir group_levels to_ignore all_files bs = Inr (all_files, bs)"
| "explore_nodes ((name, n) # rest) rootdir builddir group_levels to_ignore all_files bs =
     (let node = entry_path rootdir name in
      if node \<in> to_ignore
      then explore_nodes rest rootdir builddir group_levels to_ignore all_files bs
      else (case relative_to node rootdir of
              Inl e \<Rightarrow> Inl e
            | Inr node_relative \<Rightarrow>
               (case n of
                  File readable \<Rightarrow>
                    explore_nodes rest rootdir builddir group_levels to_ignore
                      (all_files @ [node_relative]) bs
                | Dir sub \<Rightarrow>
                    if grouped group_levels node
                    then (case sanitize (str_of node_relative) of
                            Inl e \<Rightarrow> Inl e
                          | Inr sane \<Rightarrow>
                             (case create (joinpath builddir (parse_path sane)) BDir bs of
                                Inl e \<Rightarrow> Inl e
                              | Inr bs1 \<Rightarrow>
                                 (case explore sub node (joinpath builddir (parse_path sane))
                                         (group_levels_sub group_levels) to_ignore bs1 of
                                    Inl e \<Rightarrow> Inl e
                                  | Inr bs2 \<Rightarrow>
                                      explore_nodes rest rootdir builddir group_levels to_ignore
                                        all_files bs2)))
                    else (case build_tree sub rootdir builddir node_relative to_ignore bs of
                            Inl e \<Rightarrow> Inl e
                          | Inr bs1 \<Rightarrow>
                              explore_nodes rest rootdir builddir group_levels to_ignore
                                all_files bs1))))"
  by pat_completeness auto
termination
  by (relation "measure (\<lambda>x. case x of
          Inl (content, _) \<Rightarrow> Suc (size_list (size_prod (\<lambda>_. 0) size) content)
        | Inr (nodes, _) \<Rightarrow> size_list (size_prod (\<lambda>_. 0) size) nodes)")
     (auto simp: size_sort_key)

section \<open>Evaluation and path facts\<close>

lemma get_name_loop_in:
  "fpath \<in> set listing \<Longrightarrow>
   get_name_loop basename listing fpath num =
     get_name_loop basename listing (parse_path (tar_name_num basename num)) (Suc num)"
  by (subst get_name_loop.simps) simp

lemma get_name_loop_out:
  "fpath \<notin> set listing \<Longrightarrow> get_name_loop basename listing fpath num = fpath"
  by (subst get_name_loop.simps) simp

lemmas path_eval = ascii_def parse_path_def str_of_def joinpath_def parents_def parent_def
  relative_to_def entry_path_def tar_name_def tar_name_num_def dec_small dec_big

lemmas store_eval = iterdir_def create_def get_name_def get_name_loop_in get_name_loop_out

lemmas explore_eval = build_tree_def pack_files_def pack_entries_def access_def grouped_def
  group_levels_sub_def Let_def

definition below :: "path \<Rightarrow> path \<Rightarrow> bool" where
  "below d p \<longleftrightarrow> absolute p = absolute d \<and> prefix (parts d) (parts p)"

lemma below_refl: "below d d"
  by (simp add: below_def)

lemma below_trans: "below a b \<Longrightarrow> below b c \<Longrightarrow> below a c"
  by (auto simp: below_def)

lemma below_antisym: "below a b \<Longrightarrow> below b a \<Longrightarrow> a = b"
  by (auto simp: below_def intro: path.expand dest: prefix_order.antisym)

lemma set_parents:
  "set (parents p) = {Path (absolute p) (take k (parts p)) | k. k < length (parts p)}"
  by (auto simp: parents_def)

lemma below_parents: "below d p \<longleftrightarrow> d = p \<or> d \<in> set (parents p)"
proof
  assume b: "below d p"
  show "d = p \<or> d \<in> set (parents p)"
  proof (cases "parts d = parts p")
    case True
    with b have "d = p" by (auto simp: below_def intro: path.expand)
    then show ?thesis ..
  next
    case False
    from b obtain zs where zs: "parts p = parts d @ zs" by (auto simp: below_def prefix_def)
    with False have "zs \<noteq> []" by auto
    then have "length (parts d) < length (parts p)" using zs by simp
    moreover have "d = Path (absolute p) (take (length (parts d)) (parts p))"
      using b zs by (auto simp: below_def intro: path.expand)
    ultimately have "d \<in> set (parents p)" unfolding set_parents by blast
    then show ?thesis ..
  qed
next
  assume "d = p \<or> d \<in> set (parents p)"
  then show "below d p"
  proof
    assume "d = p" then show ?thesis by (simp add: below_refl)
  next
    assume "d \<in> set (parents p)"
    then obtain k where "d = Path (absolute p) (take k (parts p))"
      unfolding set_parents by blast
    then show ?thesis by (simp add: below_def take_is_prefix)
  qed
qed

lemma entry_path_simps [simp]:
  "absolute (entry_path d n) = absolute d"
  "parts (entry_path d n) = parts d @ [n]"
  "parent (entry_path d n) = d"
  by (simp_all add: entry_path_def parent_def)

lemma entry_path_neq [simp]: "entry_path d n \<noteq> d" "d \<noteq> entry_path d n"
  by (auto simp: entry_path_def dest: arg_cong[where f = "\<lambda>p. length (parts p)"])

lemma below_entry_path: "below d (entry_path d n)"
  by (simp add: below_def)

lemma below_entry_neq: "below (entry_path d n) p \<Longrightarrow> p \<noteq> d"
  by (auto simp: below_def prefix_def)

lemma joinpath_single: "joinpath d (Path False [n]) = entry_path d n"
  by (simp add: joinpath_def entry_path_def)

lemma relative_to_entry: "relative_to (entry_path d n) d = Inr (Path False [n])"
  by (simp add: relative_to_def)

lemma str_of_single: "str_of (Path False [n]) = n"
  by (simp add: str_of_def)

text \<open>An ancestor of src that lies strictly below R lies at or below the child of R on the way to src.\<close>

lemma below_child:
  assumes "below R q" "q \<noteq> R" "below q src" "below (entry_path R n) src"
  shows "below (entry_path R n) q"
proof -
  from assms(1,2) have "parts q \<noteq> parts R"
    by (auto simp: below_def intro: path.expand)
  with assms(1) have "length (parts R) < length (parts q)"
    by (auto simp: below_def prefix_def)
  then have "length (parts R @ [n]) \<le> length (parts q)" by simp
  moreover have "prefix (parts R @ [n]) (parts src)" "prefix (parts q) (parts src)"
    using assms(3,4) by (simp_all add: below_def)
  ultimately have "prefix (parts R @ [n]) (parts q)"
    by (meson prefix_length_prefix)
  then show ?thesis using assms(1) by (simp add: below_def)
qed

lemma split_sep_single: "sep \<notin> set s \<Longrightarrow> split_sep sep s = [s]"
  by (induction s) auto

lemma parse_path_single:
  "0x2F \<notin> set s \<Longrightarrow> s \<noteq> [] \<Longrightarrow> s \<noteq> [0x2E] \<Longrightarrow> parse_path s = Path False [s]"
  by (cases s) (auto simp: parse_path_def split_sep_single)

lemma parse_tar_name:
  "0x2F \<notin> set b \<Longrightarrow> parse_path (tar_name b) = Path False [tar_name b]"
proof -
  assume "0x2F \<notin> set b"
  then have "0x2F \<notin> set (tar_name b)" by (auto simp: tar_name_def ascii_def)
  moreover have "2 \<le> length (tar_name b)" by (simp add: tar_name_def ascii_def)
  then have "tar_name b \<noteq> []" "tar_name b \<noteq> [0x2E]" by auto
  ultimately show ?thesis by (rule parse_path_single)
qed

lemma parse_tar_name_num:
  "0x2F \<notin> set b \<Longrightarrow> parse_path (tar_name_num b k) = Path False [tar_name_num b k]"
proof -
  assume "0x2F \<notin> set b"
  then have "0x2F \<notin> set (tar_name_num b k)"
    using dec_chars[of "0x2F" k] by (auto simp: tar_name_num_def ascii_def)
  moreover have "2 \<le> length (tar_name_num b k)" by (simp add: tar_name_num_def ascii_def)
  then have "tar_name_num b k \<noteq> []" "tar_name_num b k \<noteq> [0x2E]" by auto
  ultimately show ?thesis by (rule parse_path_single)
qed

lemma get_name_loop_result:
  "get_name_loop basename listing fpath num = fpath \<or>
   (\<exists>k. get_name_loop basename listing fpath num = parse_path (tar_name_num basename k))"
proof (induction basename listing fpath num rule: get_name_loop.induct)
  case (1 basename listing fpath num)
  show ?case
  proof (cases "fpath \<in> set listing")
    case True
    with "1.IH"[OF True] show ?thesis by (auto simp: get_name_loop_in)
  next
    case False
    then show ?thesis by (simp add: get_name_loop_out)
  qed
qed

lemma get_name_single:
  assumes "0x2F \<notin> set basename" "get_name basename directory bs = Inr fname"
  shows "\<exists>n. fname = entry_path directory n"
proof -
  from assms(2) obtain listing where
    f: "fname = joinpath directory (get_name_loop basename listing (parse_path (tar_name basename)) 1)"
    by (auto simp: get_name_def split: sum.splits)
  have "\<exists>n. get_name_loop basename listing (parse_path (tar_name basename)) 1 = Path False [n]"
    using get_name_loop_result[of basename listing "parse_path (tar_name basename)" 1]
      parse_tar_name[OF assms(1)] parse_tar_name_num[OF assms(1)] by metis
  then show ?thesis using f by (auto simp: joinpath_single)
qed

text \<open>With an absolute directory the loop of \<open>get_name\<close> never runs.\<close>

lemma iterdir_absolute:
  "iterdir bs directory = Inr listing \<Longrightarrow> p \<in> set listing \<Longrightarrow> absolute p = absolute directory"
  by (auto simp: iterdir_def parent_def split: option.splits bnode.splits)

lemma get_name_absolute:
  assumes "absolute directory" "0x2F \<notin> set basename" "iterdir bs directory = Inr listing"
  shows "get_name basename directory bs = Inr (entry_path directory (tar_name basename))"
proof -
  have "parse_path (tar_name basename) \<notin> set listing"
    using iterdir_absolute[OF assms(3)] assms(1) parse_tar_name[OF assms(2)]
    by (metis path.sel(1))
  then show ?thesis
    using assms(3) parse_tar_name[OF assms(2)]
    by (simp add: get_name_def get_name_loop_out joinpath_single)
qed

section \<open>The claims about the diff\<close>






section \<open>The claims about naming collisions\<close>

text \<open>
  Claim C2 (the code departs from it): \<open>_get_name\<close> compares the relative path
  \<open>name.tar.bz2\<close> with the paths of \<open>directory.iterdir()\<close>, which all start with the
  directory; under an absolute build directory they are never equal, so the occupied name
  is returned, and the second of two leaf directories that sanitize to the same name makes
  the exclusive creation of the blob raise \<open>FileExistsError\<close>.
\<close>

theorem get_name_collision:
  "get_name (ascii ''name'') (Path True [ascii ''build''])
     [(Path True [ascii ''build''], BDir),
      (Path True [ascii ''build'', ascii ''name.tar.bz2''], Blob [])]
   = Inr (Path True [ascii ''build'', ascii ''name.tar.bz2'']) \<and>
   explore [(ascii ''a?'', Dir [(ascii ''y'', File True)]),
            (ascii ''a%3F'', Dir [(ascii ''z'', File True)])]
       (Path True [ascii ''data'']) (Path True [ascii ''build'']) [] {}
       [(Path True [ascii ''build''], BDir)]
   = Inl FileExistsError"
  by (simp add: path_eval store_eval explore_eval sanitize_eval)

section \<open>What the builder and the partitioner write\<close>

text \<open>
  Notions for the proofs. \<open>named_from d e\<close>: the name of the entry \<open>e\<close> is the path of its
  file relative to \<open>d\<close>. \<open>kept d to_ignore src\<close>: the path \<open>src\<close> lies strictly below \<open>d\<close>,
  and no ignored path strictly below \<open>d\<close> is \<open>src\<close> or one of its ancestors.
\<close>

definition named_from :: "path \<Rightarrow> pystr \<times> path \<Rightarrow> bool" where
  "named_from d e \<longleftrightarrow> (\<exists>rel. relative_to (snd e) d = Inr rel \<and> fst e = str_of rel)"

definition kept :: "path \<Rightarrow> path set \<Rightarrow> path \<Rightarrow> bool" where
  "kept d to_ignore src \<longleftrightarrow>
     below d src \<and> src \<noteq> d \<and> (\<forall>q\<in>to_ignore. below d q \<and> q \<noteq> d \<longrightarrow> \<not> below q src)"

lemma kept_child:
  assumes "entry_path R n \<notin> to_ignore"
  shows "kept R to_ignore (entry_path R n)"
proof -
  have "\<not> below q (entry_path R n)" if "q \<in> to_ignore" "below R q" "q \<noteq> R" for q
  proof
    assume b: "below q (entry_path R n)"
    from below_child[OF that(2,3) b below_refl] have "below (entry_path R n) q" .
    with b have "q = entry_path R n" by (rule below_antisym)
    with that(1) assms show False by simp
  qed
  then show ?thesis by (auto simp: kept_def below_entry_path)
qed

lemma kept_lift:
  assumes "entry_path R n \<notin> to_ignore" "kept (entry_path R n) to_ignore src"
  shows "kept R to_ignore src"
proof -
  from assms(2) have b: "below (entry_path R n) src" and ne: "src \<noteq> entry_path R n"
    and ig: "\<And>q. q \<in> to_ignore \<Longrightarrow> below (entry_path R n) q \<Longrightarrow> q \<noteq> entry_path R n
              \<Longrightarrow> \<not> below q src"
    by (auto simp: kept_def)
  have "below R src" using below_trans[OF below_entry_path b] .
  moreover have "src \<noteq> R" using below_entry_neq[OF b] .
  moreover have "\<not> below q src" if "q \<in> to_ignore" "below R q" "q \<noteq> R" for q
  proof
    assume bq: "below q src"
    from below_child[OF that(2,3) bq b] have c: "below (entry_path R n) q" .
    show False
    proof (cases "q = entry_path R n")
      case True
      with that(1) assms(1) show False by simp
    next
      case False
      from ig[OF that(1) c False] bq show False by simp
    qed
  qed
  ultimately show ?thesis by (auto simp: kept_def)
qed

text \<open>What \<open>walk\<close> adds from the directory \<open>D\<close>: also \<open>D\<close> itself is not ignored.\<close>

definition walked :: "path \<Rightarrow> path set \<Rightarrow> path \<Rightarrow> bool" where
  "walked D to_ignore src \<longleftrightarrow> D \<notin> to_ignore \<and> kept D to_ignore src"

lemma walked_lift:
  "D \<notin> to_ignore \<Longrightarrow> walked (entry_path D n) to_ignore src \<Longrightarrow> walked D to_ignore src"
  by (auto simp: walked_def intro: kept_lift)

lemma walked_kept:
  assumes "walked (entry_path R n) to_ignore src"
  shows "kept R to_ignore src"
proof -
  from assms have nin: "entry_path R n \<notin> to_ignore" and k: "kept (entry_path R n) to_ignore src"
    by (auto simp: walked_def)
  show ?thesis using kept_lift[OF nin k] .
qed

lemma named_from_below:
  "named_from rootdir e \<Longrightarrow> below rootdir (snd e)"
  by (auto simp: named_from_def relative_to_def below_def split: if_splits)

lemma add_files_inv:
  "add_files rootdir dirpath content to_ignore = Inr es \<Longrightarrow> e \<in> set es \<Longrightarrow>
   named_from rootdir e \<and> (\<exists>n. snd e = entry_path dirpath n) \<and> snd e \<notin> to_ignore"
proof (induction content arbitrary: es)
  case Nil
  then show ?case by simp
next
  case (Cons x rest)
  obtain fname node where x: "x = (fname, node)" by (cases x)
  let ?fpath = "entry_path dirpath fname"
  show ?case
  proof (cases node)
    case (Dir sub)
    with Cons x show ?thesis by simp
  next
    case (File readable)
    show ?thesis
    proof (cases "?fpath \<in> to_ignore \<or> \<not> readable")
      case True
      then have "add_files rootdir dirpath rest to_ignore = Inr es"
        using Cons.prems(1) x File by (auto simp: Let_def split: if_splits)
      from Cons.IH[OF this Cons.prems(2)] show ?thesis .
    next
      case False
      then have nin: "?fpath \<notin> to_ignore" and r: readable by auto
      from Cons.prems(1) x File nin r obtain rel es' where
        rel: "relative_to ?fpath rootdir = Inr rel"
        and rest: "add_files rootdir dirpath rest to_ignore = Inr es'"
        and es: "es = (str_of rel, ?fpath) # es'"
        by (auto simp: Let_def split: sum.splits)
      show ?thesis
      proof (cases "e = (str_of rel, ?fpath)")
        case True
        with rel nin show ?thesis by (auto simp: named_from_def)
      next
        case False
        with es Cons.prems(2) have "e \<in> set es'" by simp
        from Cons.IH[OF rest this] show ?thesis .
      qed
    qed
  qed
qed

lemma walk_inv:
  "walk rootdir dirpath content to_ignore = Inr es \<Longrightarrow> e \<in> set es \<Longrightarrow>
     named_from rootdir e \<and> walked dirpath to_ignore (snd e)"
  and walk_dirs_inv:
  "walk_dirs rootdir dirpath content to_ignore = Inr es' \<Longrightarrow> dirpath \<notin> to_ignore \<Longrightarrow>
     e' \<in> set es' \<Longrightarrow> named_from rootdir e' \<and> walked dirpath to_ignore (snd e')"
proof (induction rootdir dirpath content to_ignore and rootdir dirpath content to_ignore
    arbitrary: es e and es' e' rule: walk_walk_dirs.induct)
  case (1 rootdir dirpath content to_ignore)
  show ?case
  proof (cases "dirpath \<in> to_ignore")
    case True
    with "1.prems" show ?thesis by auto
  next
    case False
    from "1.prems"(1) False obtain es1 es2 where
      a: "add_files rootdir dirpath content to_ignore = Inr es1"
      and d: "walk_dirs rootdir dirpath content to_ignore = Inr es2"
      and es: "es = es1 @ es2"
      by (auto split: sum.splits)
    from "1.prems"(2) es consider "e \<in> set es1" | "e \<in> set es2" by auto
    then show ?thesis
    proof cases
      case 1
      from add_files_inv[OF a 1] obtain n where
        nf: "named_from rootdir e" and s: "snd e = entry_path dirpath n"
        and nin: "snd e \<notin> to_ignore" by auto
      have "kept dirpath to_ignore (snd e)" using kept_child[of dirpath n to_ignore] s nin by simp
      with nf False show ?thesis by (simp add: walked_def)
    next
      case 2
      from "1.IH"[OF False a d False 2] show ?thesis .
    qed
  qed
next
  case (2 rootdir dirpath to_ignore)
  then show ?case by simp
next
  case (3 rootdir dirpath dname readable rest to_ignore)
  then show ?case by simp
next
  case (4 rootdir dirpath dname sub rest to_ignore)
  from "4.prems"(1) obtain es1 es2 where
    a: "walk rootdir (entry_path dirpath dname) sub to_ignore = Inr es1"
    and d: "walk_dirs rootdir dirpath rest to_ignore = Inr es2"
    and es: "es' = es1 @ es2"
    by (auto split: sum.splits)
  from "4.prems"(3) es consider "e' \<in> set es1" | "e' \<in> set es2" by auto
  then show ?case
  proof cases
    case 1
    from "4.IH"(1)[OF a 1]
    have "named_from rootdir e'" "walked (entry_path dirpath dname) to_ignore (snd e')" by auto
    then show ?thesis using walked_lift[OF "4.prems"(2)] by blast
  next
    case 2
    from "4.IH"(2)[OF a d "4.prems"(2) 2] show ?thesis .
  qed
qed

text \<open>
  \<open>mirrors R B d p\<close>: the directory \<open>d\<close> is \<open>R\<close> followed by some names, and \<open>p\<close> is \<open>B\<close>
  followed by what \<open>sanitize\<close> returns for these names, one by one.

  What holds of an item \<open>x\<close> that \<open>explore\<close> adds to the build area when it explores \<open>R\<close>
  into \<open>B\<close>: it lies strictly below \<open>B\<close>, and when it is a blob, every file in it is kept
  and its entries are named from one directory, which the directory of the blob mirrors.
  \<open>loose_ok\<close> is what holds of the members of \<open>all_files\<close>.
\<close>

definition mirrors :: "path \<Rightarrow> path \<Rightarrow> path \<Rightarrow> path \<Rightarrow> bool" where
  "mirrors R B d p \<longleftrightarrow>
     (\<exists>ds ss. d = Path (absolute R) (parts R @ ds) \<and> p = Path (absolute B) (parts B @ ss) \<and>
              list_all2 (\<lambda>n s. sanitize n = Inr s) ds ss)"

definition item_ok :: "path \<Rightarrow> path \<Rightarrow> path set \<Rightarrow> path \<times> bnode \<Rightarrow> bool" where
  "item_ok R B to_ignore x \<longleftrightarrow>
     below B (fst x) \<and> fst x \<noteq> B \<and>
     (\<forall>es. snd x = Blob es \<longrightarrow>
        (\<forall>e\<in>set es. kept R to_ignore (snd e)) \<and>
        (\<exists>d. mirrors R B d (parent (fst x)) \<and> (\<forall>e\<in>set es. named_from d e)))"

definition loose_ok :: "path \<Rightarrow> path set \<Rightarrow> path \<Rightarrow> bool" where
  "loose_ok R to_ignore f \<longleftrightarrow> (\<exists>n. f = Path False [n] \<and> entry_path R n \<notin> to_ignore)"

lemma mirrors_refl: "mirrors R B R B"
  unfolding mirrors_def by (intro exI[of _ "[]"]) simp

lemma mirrors_lift:
  assumes "sanitize n = Inr s" "mirrors (entry_path R n) (entry_path B s) d p"
  shows "mirrors R B d p"
proof -
  from assms(2) obtain ds ss where
    d: "d = Path (absolute R) ((parts R @ [n]) @ ds)"
    and p: "p = Path (absolute B) ((parts B @ [s]) @ ss)"
    and l: "list_all2 (\<lambda>n s. sanitize n = Inr s) ds ss"
    by (auto simp: mirrors_def)
  from l assms(1) have "list_all2 (\<lambda>n s. sanitize n = Inr s) (n # ds) (s # ss)" by simp
  with d p show ?thesis unfolding mirrors_def
    by (intro exI[of _ "n # ds"] exI[of _ "s # ss"]) simp
qed

lemma sanitize_no_slash:
  assumes "sanitize s = Inr out"
  shows "0x2F \<notin> set out" "out \<noteq> []" "out \<noteq> [0x2E]"
proof -
  from assms have ne: "s \<noteq> []" by (auto simp: sanitize_empty)
  have out: "out = sanitized s" using sanitize_eq[OF ne] assms by (simp add: sanitized_def)
  show "0x2F \<notin> set out"
    using sanitized_props(2)[of "0x2F" s] out by (auto simp: DROPBOX_FORBIDDEN_def)
  show "out \<noteq> []" using sanitized_props(1)[of s] out by simp
  show "out \<noteq> [0x2E]" using sanitized_props(3)[of s] out by auto
qed

lemma parse_sanitized: "sanitize s = Inr out \<Longrightarrow> parse_path out = Path False [out]"
  using sanitize_no_slash[of s out] by (simp add: parse_path_single)

lemma create_appends: "create p b bs = Inr bs' \<Longrightarrow> bs' = bs @ [(p, b)]"
  by (auto simp: create_def split: if_splits option.splits bnode.splits)

lemma build_tree_inv:
  assumes "build_tree sub R B (Path False [name]) to_ignore bs = Inr bs'"
  shows "\<exists>x. bs' = bs @ [x] \<and> item_ok R B to_ignore x \<and> parent (fst x) = B \<and>
             (\<exists>es. snd x = Blob es)"
proof -
  from assms obtain sane fname es where
    s: "sanitize name = Inr sane"
    and g: "get_name sane B bs = Inr fname"
    and w: "walk R (entry_path R name) sub to_ignore = Inr es"
    and bs': "bs' = bs @ [(fname, Blob es)]"
    by (auto simp: build_tree_def str_of_single joinpath_single split: sum.splits)
  from get_name_single[OF sanitize_no_slash(1)[OF s] g] obtain n where
    f: "fname = entry_path B n" by blast
  have k: "\<forall>e\<in>set es. kept R to_ignore (snd e)"
    using walk_inv[OF w] walked_kept by blast
  have nf: "\<forall>e\<in>set es. named_from R e" using walk_inv[OF w] by blast
  have "item_ok R B to_ignore (fname, Blob es)"
    unfolding item_ok_def using f k nf mirrors_refl[of R B] by (auto simp: below_entry_path)
  with bs' f show ?thesis by auto
qed

lemma pack_files_inv:
  assumes "pack_files content R B all_files bs = Inr bs'"
    and "\<forall>f\<in>set all_files. loose_ok R to_ignore f"
  shows "\<exists>new. bs' = bs @ new \<and> (\<forall>x\<in>set new. item_ok R B to_ignore x \<and> parent (fst x) = B)"
proof (cases "all_files = []")
  case True
  with assms(1) show ?thesis by (simp add: pack_files_def)
next
  case False
  let ?es = "pack_entries content R all_files"
  from assms(1) False obtain tarfpath where
    g: "get_name (ascii ''_packed_files'') B bs = Inr tarfpath"
    and bs': "bs' = bs @ [(tarfpath, Blob ?es)]"
    by (auto simp: pack_files_def split: sum.splits)
  have "0x2F \<notin> set (ascii ''_packed_files'')" by (simp add: ascii_def)
  from get_name_single[OF this g] obtain n where f: "tarfpath = entry_path B n" by blast
  have e: "kept R to_ignore (snd e) \<and> named_from R e" if "e \<in> set ?es" for e
  proof -
    from that obtain fname where "fname \<in> set all_files"
      and e: "e = (str_of fname, joinpath R fname)"
      by (auto simp: pack_entries_def)
    with assms(2) obtain m where m: "fname = Path False [m]" "entry_path R m \<notin> to_ignore"
      by (auto simp: loose_ok_def)
    show ?thesis
      using kept_child[OF m(2)] e m(1)
      by (simp add: joinpath_single named_from_def relative_to_entry)
  qed
  have "item_ok R B to_ignore (tarfpath, Blob ?es)"
    unfolding item_ok_def using f e mirrors_refl[of R B] by (auto simp: below_entry_path)
  with bs' f show ?thesis by auto
qed

lemma item_ok_lift:
  assumes nin: "entry_path R n \<notin> to_ignore"
    and san: "sanitize n = Inr s"
    and ok: "item_ok (entry_path R n) (entry_path B s) to_ignore x"
  shows "item_ok R B to_ignore x"
proof -
  from ok have b: "below (entry_path B s) (fst x)" by (auto simp: item_ok_def)
  have b': "below B (fst x)" using below_trans[OF below_entry_path b] .
  have ne': "fst x \<noteq> B" using below_entry_neq[OF b] .
  have "(\<forall>e\<in>set es. kept R to_ignore (snd e)) \<and>
        (\<exists>d. mirrors R B d (parent (fst x)) \<and> (\<forall>e\<in>set es. named_from d e))"
    if blob: "snd x = Blob es" for es
  proof -
    from ok blob have k: "\<forall>e\<in>set es. kept (entry_path R n) to_ignore (snd e)"
      and "\<exists>d. mirrors (entry_path R n) (entry_path B s) d (parent (fst x)) \<and>
               (\<forall>e\<in>set es. named_from d e)"
      by (auto simp: item_ok_def)
    then obtain d where m: "mirrors (entry_path R n) (entry_path B s) d (parent (fst x))"
      and nf: "\<forall>e\<in>set es. named_from d e" by blast
    from mirrors_lift[OF san m] nf k kept_lift[OF nin] show ?thesis by blast
  qed
  with b' ne' show ?thesis by (auto simp: item_ok_def)
qed

lemma explore_inv:
  "explore content R B group_levels to_ignore bs = Inr bs' \<Longrightarrow>
     \<exists>new. bs' = bs @ new \<and> (\<forall>x\<in>set new. item_ok R B to_ignore x)"
  and explore_nodes_inv:
  "explore_nodes nodes R B group_levels to_ignore all_files bs = Inr (all_files', bs'') \<Longrightarrow>
     \<forall>f\<in>set all_files. loose_ok R to_ignore f \<Longrightarrow>
     (\<forall>f\<in>set all_files'. loose_ok R to_ignore f) \<and>
     (\<exists>new. bs'' = bs @ new \<and> (\<forall>x\<in>set new. item_ok R B to_ignore x))"
proof (induction content R B group_levels to_ignore bs
    and nodes R B group_levels to_ignore all_files bs
    arbitrary: bs' and all_files' bs'' rule: explore_explore_nodes.induct)
  case (1 content rootdir builddir group_levels to_ignore bs)
  from "1.prems" obtain af bs1 where
    n: "explore_nodes (sort_key fst content) rootdir builddir group_levels to_ignore [] bs
          = Inr (af, bs1)"
    and p: "pack_files content rootdir builddir af bs1 = Inr bs'"
    by (auto split: sum.splits)
  from "1.IH"[OF n] obtain new1 where
    af: "\<forall>f\<in>set af. loose_ok rootdir to_ignore f"
    and new1: "bs1 = bs @ new1" "\<forall>x\<in>set new1. item_ok rootdir builddir to_ignore x"
    by auto
  from pack_files_inv[OF p af] obtain new2 where
    "bs' = bs1 @ new2" "\<forall>x\<in>set new2. item_ok rootdir builddir to_ignore x" by blast
  with new1 have "bs' = bs @ (new1 @ new2)"
    "\<forall>x\<in>set (new1 @ new2). item_ok rootdir builddir to_ignore x" by auto
  then show ?case by blast
next
  case (2 rootdir builddir group_levels to_ignore all_files bs)
  then show ?case by simp
next
  case (3 name n rest rootdir builddir group_levels to_ignore all_files bs)
  let ?node = "entry_path rootdir name"
  let ?P = "\<lambda>bs0. (\<forall>f\<in>set all_files'. loose_ok rootdir to_ignore f) \<and>
     (\<exists>new. bs'' = bs0 @ new \<and> (\<forall>x\<in>set new. item_ok rootdir builddir to_ignore x))"
  note lo = "3.prems"(2)
  have rel: "relative_to ?node rootdir = Inr (Path False [name])" by (rule relative_to_entry)
  show ?case
  proof (cases "?node \<in> to_ignore")
    case True
    with "3.prems"(1) have
      "explore_nodes rest rootdir builddir group_levels to_ignore all_files bs
         = Inr (all_files', bs'')" by (simp add: Let_def)
    from "3.IH"(1)[OF refl True this lo] show ?thesis .
  next
    case False
    note nin = False
    show ?thesis
    proof (cases n)
      case (File readable)
      with "3.prems"(1) nin rel have r:
        "explore_nodes rest rootdir builddir group_levels to_ignore
           (all_files @ [Path False [name]]) bs = Inr (all_files', bs'')"
        by (simp add: Let_def)
      have "\<forall>f\<in>set (all_files @ [Path False [name]]). loose_ok rootdir to_ignore f"
        using lo nin by (auto simp: loose_ok_def)
      from "3.IH"(2)[OF refl nin rel File r this] show ?thesis .
    next
      case (Dir sub)
      show ?thesis
      proof (cases "grouped group_levels ?node")
        case True
        from "3.prems"(1) nin rel Dir True obtain sane bs1 bs2 where
          s: "sanitize (str_of (Path False [name])) = Inr sane"
          and c: "create (joinpath builddir (parse_path sane)) BDir bs = Inr bs1"
          and e: "explore sub ?node (joinpath builddir (parse_path sane))
                    (group_levels_sub group_levels) to_ignore bs1 = Inr bs2"
          and r: "explore_nodes rest rootdir builddir group_levels to_ignore all_files bs2
                    = Inr (all_files', bs'')"
          by (auto simp: Let_def split: sum.splits)
        from s have s': "sanitize name = Inr sane" by (simp add: str_of_single)
        have j: "joinpath builddir (parse_path sane) = entry_path builddir sane"
          using parse_sanitized[OF s'] by (simp add: joinpath_single)
        from "3.IH"(3)[OF refl nin rel Dir True s c e] obtain new2 where
          new2: "bs2 = bs1 @ new2"
          "\<forall>x\<in>set new2. item_ok ?node (entry_path builddir sane) to_ignore x"
          unfolding j by blast
        from "3.IH"(4)[OF refl nin rel Dir True s c e r lo] obtain new3 where
          af: "\<forall>f\<in>set all_files'. loose_ok rootdir to_ignore f"
          and new3: "bs'' = bs2 @ new3" "\<forall>x\<in>set new3. item_ok rootdir builddir to_ignore x"
          by blast
        have bs1: "bs1 = bs @ [(entry_path builddir sane, BDir)]"
          using create_appends[OF c] j by simp
        have d: "item_ok rootdir builddir to_ignore (entry_path builddir sane, BDir)"
          by (simp add: item_ok_def below_entry_path)
        have "\<forall>x\<in>set new2. item_ok rootdir builddir to_ignore x"
          using new2(2) item_ok_lift[OF nin s'] by blast
        with d new3(2) have
          "\<forall>x\<in>set ([(entry_path builddir sane, BDir)] @ new2 @ new3).
             item_ok rootdir builddir to_ignore x" by auto
        moreover have "bs'' = bs @ ([(entry_path builddir sane, BDir)] @ new2 @ new3)"
          using bs1 new2(1) new3(1) by simp
        ultimately show ?thesis using af by blast
      next
        case False
        from "3.prems"(1) nin rel Dir False obtain bs1 where
          b: "build_tree sub rootdir builddir (Path False [name]) to_ignore bs = Inr bs1"
          and r: "explore_nodes rest rootdir builddir group_levels to_ignore all_files bs1
                    = Inr (all_files', bs'')"
          by (auto simp: Let_def split: sum.splits)
        from build_tree_inv[OF b] obtain x where
          x: "bs1 = bs @ [x]" "item_ok rootdir builddir to_ignore x" by blast
        from "3.IH"(5)[OF refl nin rel Dir False b r lo] obtain new3 where
          af: "\<forall>f\<in>set all_files'. loose_ok rootdir to_ignore f"
          and new3: "bs'' = bs1 @ new3" "\<forall>x\<in>set new3. item_ok rootdir builddir to_ignore x"
          by blast
        have "bs'' = bs @ ([x] @ new3)" using x(1) new3(1) by simp
        moreover have "\<forall>y\<in>set ([x] @ new3). item_ok rootdir builddir to_ignore y"
          using x(2) new3(2) by auto
        ultimately show ?thesis using af by blast
      qed
    qed
  qed
qed

section \<open>The claims about the archive entries\<close>

lemma parents_shorter: "d \<in> set (parents p) \<Longrightarrow> d \<noteq> p"
  by (auto simp: set_parents dest: arg_cong[where f = "\<lambda>p. length (parts p)"])

lemma strictly_below: "d \<in> set (parents p) \<longleftrightarrow> below d p \<and> p \<noteq> d"
  using below_parents[of d p] parents_shorter[of d p] by auto

text \<open>
  Claim C3, as stated: no path of the ignore set, and nothing below it, is ever an entry of
  an archive. \<open>explore\<close> compares the paths of the ignore set with the paths of the nodes it
  lists, as \<open>pathlib\<close> does: part by part, with no \<open>..\<close> resolved, and never with the
  directory it lists. With \<open>/data\<close> itself ignored (the entry \<open>.\<close> of the ignore list gives
  it), the file \<open>/data/x\<close> is still archived; and with \<open>/data/a/../s\<close> ignored (the entry
  \<open>a/../s\<close>, which names the directory \<open>/data/s\<close>), the file \<open>/data/s/k\<close> is still archived.
\<close>

theorem ignored_never_archived_counterexample:
  "explore [(ascii ''x'', File True)] (Path True [ascii ''data'']) (Path True [ascii ''build''])
     [] {Path True [ascii ''data'']} [(Path True [ascii ''build''], BDir)]
   = Inr [(Path True [ascii ''build''], BDir),
          (Path True [ascii ''build'', ascii ''_packed_files.tar.bz2''],
           Blob [(ascii ''x'', Path True [ascii ''data'', ascii ''x''])])] \<and>
   Path True [ascii ''data''] \<in> set (parents (Path True [ascii ''data'', ascii ''x''])) \<and>
   joinpath (Path True [ascii ''data'']) (parse_path (ascii ''a/../s''))
     = Path True [ascii ''data'', ascii ''a'', ascii ''..'', ascii ''s''] \<and>
   explore [(ascii ''a'', Dir []), (ascii ''s'', Dir [(ascii ''k'', File True)])]
     (Path True [ascii ''data'']) (Path True [ascii ''build''])
     [] {Path True [ascii ''data'', ascii ''a'', ascii ''..'', ascii ''s'']}
     [(Path True [ascii ''build''], BDir)]
   = Inr [(Path True [ascii ''build''], BDir),
          (Path True [ascii ''build'', ascii ''a.tar.bz2''], Blob []),
          (Path True [ascii ''build'', ascii ''s.tar.bz2''],
           Blob [(ascii ''s/k'', Path True [ascii ''data'', ascii ''s'', ascii ''k''])])]"
  by (simp add: path_eval store_eval explore_eval sanitize_eval)

text \<open>
  Claim C3, amended, with paths taken as \<open>pathlib\<close> compares them (the root flag and the
  list of parts, no \<open>..\<close> resolved, \<open>parents\<close> the proper prefixes): whenever \<open>explore\<close>
  returns, it has only added to the build area, and for every path \<open>q\<close> of the ignore set
  that has the explored root among its parents, no entry of an added blob is a file whose
  path is \<open>q\<close> or has \<open>q\<close> among its parents. An ignored node of the listing is passed
  over by \<open>explore\<close>; the walk of an ignored directory gives no entry, whatever the
  directory holds; and an ignored file is passed over when the files are added.
\<close>

theorem ignored_never_archived:
  assumes "explore content rootdir builddir group_levels to_ignore bs = Inr bs'"
  shows "(\<exists>new. bs' = bs @ new \<and>
           (\<forall>x\<in>set new. \<forall>es. snd x = Blob es \<longrightarrow>
              (\<forall>e\<in>set es. \<forall>q\<in>to_ignore. rootdir \<in> set (parents q) \<longrightarrow>
                 q \<noteq> snd e \<and> q \<notin> set (parents (snd e))))) \<and>
         (\<forall>name n rest all_files bs0. entry_path rootdir name \<in> to_ignore \<longrightarrow>
            explore_nodes ((name, n) # rest) rootdir builddir group_levels to_ignore all_files bs0
              = explore_nodes rest rootdir builddir group_levels to_ignore all_files bs0) \<and>
         (\<forall>dirpath sub. dirpath \<in> to_ignore \<longrightarrow>
            walk rootdir dirpath sub to_ignore = Inr []) \<and>
         (\<forall>dirpath fname readable rest. entry_path dirpath fname \<in> to_ignore \<longrightarrow>
            add_files rootdir dirpath ((fname, File readable) # rest) to_ignore
              = add_files rootdir dirpath rest to_ignore)"
proof (intro conjI allI impI)
  fix name n rest all_files bs0
  assume "entry_path rootdir name \<in> to_ignore"
  then show "explore_nodes ((name, n) # rest) rootdir builddir group_levels to_ignore all_files bs0
              = explore_nodes rest rootdir builddir group_levels to_ignore all_files bs0"
    by (simp add: Let_def)
next
  fix dirpath sub
  assume "dirpath \<in> to_ignore"
  then show "walk rootdir dirpath sub to_ignore = Inr []" by simp
next
  fix dirpath fname readable rest
  assume "entry_path dirpath fname \<in> to_ignore"
  then show "add_files rootdir dirpath ((fname, File readable) # rest) to_ignore
              = add_files rootdir dirpath rest to_ignore"
    by (simp add: Let_def)
next
  from explore_inv[OF assms] obtain new where
    new: "bs' = bs @ new" and ok: "\<forall>x\<in>set new. item_ok rootdir builddir to_ignore x" by blast
  have "q \<noteq> snd e \<and> q \<notin> set (parents (snd e))"
    if "x \<in> set new" "snd x = Blob es" "e \<in> set es" "q \<in> to_ignore" "rootdir \<in> set (parents q)"
    for x es e q
  proof -
    from ok that(1,2,3) have "kept rootdir to_ignore (snd e)" by (auto simp: item_ok_def)
    with that(4,5) have "\<not> below q (snd e)" by (auto simp: kept_def strictly_below)
    then show ?thesis by (simp add: below_parents)
  qed
  with new show "\<exists>new. bs' = bs @ new \<and>
           (\<forall>x\<in>set new. \<forall>es. snd x = Blob es \<longrightarrow>
              (\<forall>e\<in>set es. \<forall>q\<in>to_ignore. rootdir \<in> set (parents q) \<longrightarrow>
                 q \<noteq> snd e \<and> q \<notin> set (parents (snd e))))" by blast
qed

theorem ignored_never_archived_witness:
  "explore [(ascii ''s'', Dir [(ascii ''k'', File True)]), (ascii ''x'', File True),
            (ascii ''t'', Dir [(ascii ''u'', Dir [(ascii ''w'', File True)]),
                               (ascii ''v'', File True)])]
     (Path True [ascii ''data'']) (Path True [ascii ''build''])
     [] {Path True [ascii ''data'', ascii ''s''], Path True [ascii ''data'', ascii ''t'', ascii ''u'']}
     [(Path True [ascii ''build''], BDir)]
   = Inr [(Path True [ascii ''build''], BDir),
          (Path True [ascii ''build'', ascii ''t.tar.bz2''],
           Blob [(ascii ''t/v'', Path True [ascii ''data'', ascii ''t'', ascii ''v''])]),
          (Path True [ascii ''build'', ascii ''_packed_files.tar.bz2''],
           Blob [(ascii ''x'', Path True [ascii ''data'', ascii ''x''])])] \<and>
   Path True [ascii ''data''] \<in> set (parents (Path True [ascii ''data'', ascii ''t'', ascii ''u''])) \<and>
   Path True [ascii ''data'', ascii ''t'', ascii ''u''] \<noteq> Path True [ascii ''data'', ascii ''t'', ascii ''v'']"
  using ignored_never_archived[of
      "[(ascii ''s'', Dir [(ascii ''k'', File True)]), (ascii ''x'', File True),
        (ascii ''t'', Dir [(ascii ''u'', Dir [(ascii ''w'', File True)]),
                           (ascii ''v'', File True)])]"
      "Path True [ascii ''data'']" "Path True [ascii ''build'']" "[]"
      "{Path True [ascii ''data'', ascii ''s''], Path True [ascii ''data'', ascii ''t'', ascii ''u'']}"
      "[(Path True [ascii ''build''], BDir)]", THEN conjunct1]
  by (simp add: path_eval store_eval explore_eval sanitize_eval)

text \<open>
  Claim C1, as stated: every entry name is the path of the file relative to the configured
  root. For a grouped directory \<open>explore\<close> calls itself with that directory as \<open>rootdir\<close>,
  so the entries of the blobs below it are named relative to the grouped directory: with
  \<open>/data/p\<close> grouped, the file \<open>/data/p/a/x\<close> is stored as \<open>a/x\<close>, not as \<open>p/a/x\<close>.
\<close>

theorem entry_names_counterexample:
  "explore [(ascii ''p'', Dir [(ascii ''a'', Dir [(ascii ''x'', File True)])])]
     (Path True [ascii ''data'']) (Path True [ascii ''build''])
     [(Path True [ascii ''data'', ascii ''p''], 1)] {} [(Path True [ascii ''build''], BDir)]
   = Inr [(Path True [ascii ''build''], BDir),
          (Path True [ascii ''build'', ascii ''p''], BDir),
          (Path True [ascii ''build'', ascii ''p'', ascii ''a.tar.bz2''],
           Blob [(ascii ''a/x'', Path True [ascii ''data'', ascii ''p'', ascii ''a'', ascii ''x''])])] \<and>
   relative_to (Path True [ascii ''data'', ascii ''p'', ascii ''a'', ascii ''x''])
     (Path True [ascii ''data'']) = Inr (Path False [ascii ''p'', ascii ''a'', ascii ''x'']) \<and>
   str_of (Path False [ascii ''p'', ascii ''a'', ascii ''x'']) = ascii ''p/a/x'' \<and>
   ascii ''a/x'' \<noteq> ascii ''p/a/x''"
  by (simp add: path_eval store_eval explore_eval sanitize_eval)

text \<open>
  Claim C1, amended: whenever \<open>explore\<close> returns, it has only added to the build area, and
  for every blob it has added there are directory names \<open>ds\<close> such that the directory of
  the blob is the build directory followed by what \<open>sanitize\<close> returns for the names of
  \<open>ds\<close>, one by one, and every entry of the blob is named by the path of its file relative
  to the root followed by \<open>ds\<close>; the path of the file relative to the root is \<open>ds\<close>
  followed by that path. For a blob directly in the build directory \<open>ds\<close> is empty.
\<close>

theorem entry_names_relative:
  assumes "explore content rootdir builddir group_levels to_ignore bs = Inr bs'"
  shows "\<exists>new. bs' = bs @ new \<and>
           (\<forall>x\<in>set new. \<forall>es. snd x = Blob es \<longrightarrow>
              (\<exists>ds ss. parent (fst x) = Path (absolute builddir) (parts builddir @ ss) \<and>
                 list_all2 (\<lambda>n s. sanitize n = Inr s) ds ss \<and>
                 (\<forall>e\<in>set es. \<exists>rel.
                    relative_to (snd e) (Path (absolute rootdir) (parts rootdir @ ds)) = Inr rel \<and>
                    fst e = str_of rel \<and>
                    relative_to (snd e) rootdir = Inr (Path False (ds @ parts rel)))))"
proof -
  from explore_inv[OF assms] obtain new where
    new: "bs' = bs @ new" and ok: "\<forall>x\<in>set new. item_ok rootdir builddir to_ignore x" by blast
  have "\<exists>ds ss. parent (fst x) = Path (absolute builddir) (parts builddir @ ss) \<and>
          list_all2 (\<lambda>n s. sanitize n = Inr s) ds ss \<and>
          (\<forall>e\<in>set es. \<exists>rel.
             relative_to (snd e) (Path (absolute rootdir) (parts rootdir @ ds)) = Inr rel \<and>
             fst e = str_of rel \<and>
             relative_to (snd e) rootdir = Inr (Path False (ds @ parts rel)))"
    if "x \<in> set new" "snd x = Blob es" for x es
  proof -
    from ok that obtain d where
      m: "mirrors rootdir builddir d (parent (fst x))"
      and nf: "\<forall>e\<in>set es. named_from d e"
      unfolding item_ok_def by blast
    from m obtain ds ss where
      d: "d = Path (absolute rootdir) (parts rootdir @ ds)"
      and p: "parent (fst x) = Path (absolute builddir) (parts builddir @ ss)"
      and l: "list_all2 (\<lambda>n s. sanitize n = Inr s) ds ss"
      unfolding mirrors_def by blast
    have "\<exists>rel. relative_to (snd e) (Path (absolute rootdir) (parts rootdir @ ds)) = Inr rel \<and>
            fst e = str_of rel \<and>
            relative_to (snd e) rootdir = Inr (Path False (ds @ parts rel))"
      if "e \<in> set es" for e
    proof -
      from nf that d obtain rel where
        r: "relative_to (snd e) (Path (absolute rootdir) (parts rootdir @ ds)) = Inr rel"
        and n: "fst e = str_of rel"
        unfolding named_from_def by blast
      from r have a: "absolute (snd e) = absolute rootdir"
        and pre: "prefix (parts rootdir @ ds) (parts (snd e))"
        and rel: "rel = Path False (drop (length (parts rootdir) + length ds) (parts (snd e)))"
        by (auto simp: relative_to_def split: if_splits)
      from pre obtain zs where zs: "parts (snd e) = (parts rootdir @ ds) @ zs"
        by (auto simp: prefix_def)
      have "relative_to (snd e) rootdir = Inr (Path False (ds @ parts rel))"
        using a zs rel by (simp add: relative_to_def)
      with r n show ?thesis by blast
    qed
    with p l show ?thesis by blast
  qed
  with new show ?thesis by blast
qed

theorem entry_names_relative_witness:
  "explore [(ascii ''p?'', Dir [(ascii ''a'', Dir [(ascii ''x'', File True)]),
                                (ascii ''y'', File True)]),
            (ascii ''o'', Dir [(ascii ''z'', File True)])]
     (Path True [ascii ''data'']) (Path True [ascii ''build''])
     [(Path True [ascii ''data'', ascii ''p?''], 1)] {} [(Path True [ascii ''build''], BDir)]
   = Inr [(Path True [ascii ''build''], BDir),
          (Path True [ascii ''build'', ascii ''o.tar.bz2''],
           Blob [(ascii ''o/z'', Path True [ascii ''data'', ascii ''o'', ascii ''z''])]),
          (Path True [ascii ''build'', ascii ''p%3F''], BDir),
          (Path True [ascii ''build'', ascii ''p%3F'', ascii ''a.tar.bz2''],
           Blob [(ascii ''a/x'', Path True [ascii ''data'', ascii ''p?'', ascii ''a'', ascii ''x''])]),
          (Path True [ascii ''build'', ascii ''p%3F'', ascii ''_packed_files.tar.bz2''],
           Blob [(ascii ''y'', Path True [ascii ''data'', ascii ''p?'', ascii ''y''])])] \<and>
   parent (Path True [ascii ''build'', ascii ''p%3F'', ascii ''a.tar.bz2''])
     = Path True [ascii ''build'', ascii ''p%3F''] \<and>
   sanitize (ascii ''p?'') = Inr (ascii ''p%3F'') \<and>
   relative_to (Path True [ascii ''data'', ascii ''p?'', ascii ''a'', ascii ''x''])
     (Path True [ascii ''data'', ascii ''p?'']) = Inr (Path False [ascii ''a'', ascii ''x'']) \<and>
   str_of (Path False [ascii ''a'', ascii ''x'']) = ascii ''a/x'' \<and>
   relative_to (Path True [ascii ''data'', ascii ''p?'', ascii ''a'', ascii ''x''])
     (Path True [ascii ''data'']) = Inr (Path False [ascii ''p?'', ascii ''a'', ascii ''x''])"
  using entry_names_relative[of
      "[(ascii ''p?'', Dir [(ascii ''a'', Dir [(ascii ''x'', File True)]),
                            (ascii ''y'', File True)]),
        (ascii ''o'', Dir [(ascii ''z'', File True)])]"
      "Path True [ascii ''data'']" "Path True [ascii ''build'']"
      "[(Path True [ascii ''data'', ascii ''p?''], 1)]" "{}"
      "[(Path True [ascii ''build''], BDir)]"]
  by (simp add: path_eval store_eval explore_eval sanitize_eval)

section \<open>The claims about grouping\<close>

lemma grouped_iff:
  "grouped group_levels node \<longleftrightarrow>
     (\<exists>(k, v)\<in>set group_levels. k = node \<or> k \<in> set (parents node))"
  by (auto simp: grouped_def list_ex_iff)

lemma group_levels_sub_eq:
  "group_levels_sub group_levels =
     map (\<lambda>(k, v). (k, v - 1)) (filter (\<lambda>(k, v). 1 < v) group_levels)"
  by (simp add: group_levels_sub_def)

lemma group_levels_sub_funpow:
  "(group_levels_sub ^^ j) group_levels =
     map (\<lambda>(k, v). (k, v - int j)) (filter (\<lambda>(k, v). j = 0 \<or> int j < v) group_levels)"
proof (induction j)
  case 0
  show ?case by (simp add: case_prod_unfold)
next
  case (Suc j)
  have "(group_levels_sub ^^ Suc j) group_levels
          = group_levels_sub ((group_levels_sub ^^ j) group_levels)" by simp
  also have "\<dots> = group_levels_sub
      (map (\<lambda>(k, v). (k, v - int j)) (filter (\<lambda>(k, v). j = 0 \<or> int j < v) group_levels))"
    using Suc.IH by simp
  also have "\<dots> = map (\<lambda>(k, v). (k, v - int (Suc j)))
                     (filter (\<lambda>(k, v). Suc j = 0 \<or> int (Suc j) < v) group_levels)"
    by (induction group_levels) (auto simp: group_levels_sub_def)
  finally show ?case .
qed

lemma explore_nodes_grouped:
  assumes "entry_path rootdir name \<notin> to_ignore"
    and "grouped group_levels (entry_path rootdir name)"
  shows "explore_nodes ((name, Dir sub) # rest) rootdir builddir group_levels to_ignore all_files bs =
     (case sanitize name of
        Inl e \<Rightarrow> Inl e
      | Inr sane \<Rightarrow>
          (case create (entry_path builddir sane) BDir bs of
             Inl e \<Rightarrow> Inl e
           | Inr bs1 \<Rightarrow>
               (case explore sub (entry_path rootdir name) (entry_path builddir sane)
                       (group_levels_sub group_levels) to_ignore bs1 of
                  Inl e \<Rightarrow> Inl e
                | Inr bs2 \<Rightarrow>
                    explore_nodes rest rootdir builddir group_levels to_ignore all_files bs2)))"
proof (cases "sanitize name")
  case (Inl e)
  with assms show ?thesis by (simp add: relative_to_entry str_of_single Let_def del: explore.simps)
next
  case (Inr sane)
  have "joinpath builddir (parse_path sane) = entry_path builddir sane"
    using parse_sanitized[OF Inr] by (simp add: joinpath_single)
  with assms Inr show ?thesis
    by (simp add: relative_to_entry str_of_single Let_def del: explore.simps cong: sum.case_cong)
qed

lemma explore_nodes_leaf:
  assumes "entry_path rootdir name \<notin> to_ignore"
    and "\<not> grouped group_levels (entry_path rootdir name)"
  shows "explore_nodes ((name, Dir sub) # rest) rootdir builddir group_levels to_ignore all_files bs =
     (case sanitize name of
        Inl e \<Rightarrow> Inl e
      | Inr sane \<Rightarrow>
          (case get_name sane builddir bs of
             Inl e \<Rightarrow> Inl e
           | Inr fname \<Rightarrow>
               (case create fname (Blob []) bs of
                  Inl e \<Rightarrow> Inl e
                | Inr opened \<Rightarrow>
                    (case walk rootdir (entry_path rootdir name) sub to_ignore of
                       Inl e \<Rightarrow> Inl e
                     | Inr es \<Rightarrow>
                         explore_nodes rest rootdir builddir group_levels to_ignore all_files
                           (bs @ [(fname, Blob es)])))))"
  using assms
  by (simp add: relative_to_entry build_tree_def str_of_single joinpath_single Let_def
      del: explore.simps split: sum.splits)


text \<open>
  For the proofs: \<open>grouped_chain R group_levels ds\<close> says that each directory on the way
  from \<open>R\<close> down the names \<open>ds\<close> is grouped under the keys left at its depth; \<open>dir_ok\<close> is
  what holds of a directory that \<open>explore\<close> adds to the build area.
\<close>

definition grouped_chain :: "path \<Rightarrow> group_levels \<Rightarrow> pystr list \<Rightarrow> bool" where
  "grouped_chain R group_levels ds \<longleftrightarrow>
     ds \<noteq> [] \<and>
     (\<forall>i<length ds. grouped ((group_levels_sub ^^ i) group_levels)
                        (Path (absolute R) (parts R @ take (Suc i) ds)))"

definition dir_ok :: "path \<Rightarrow> path \<Rightarrow> group_levels \<Rightarrow> path \<times> bnode \<Rightarrow> bool" where
  "dir_ok R B group_levels x \<longleftrightarrow>
     (snd x = BDir \<longrightarrow>
        (\<exists>ds ss. fst x = Path (absolute B) (parts B @ ss) \<and>
                 list_all2 (\<lambda>n s. sanitize n = Inr s) ds ss \<and>
                 grouped_chain R group_levels ds))"

lemma grouped_chain_single:
  "grouped group_levels (entry_path R n) \<Longrightarrow> grouped_chain R group_levels [n]"
  by (simp add: grouped_chain_def entry_path_def)

lemma grouped_chain_lift:
  assumes g: "grouped group_levels (entry_path R n)"
    and c: "grouped_chain (entry_path R n) (group_levels_sub group_levels) ds"
  shows "grouped_chain R group_levels (n # ds)"
proof -
  have "grouped ((group_levels_sub ^^ i) group_levels)
          (Path (absolute R) (parts R @ take (Suc i) (n # ds)))"
    if "i < length (n # ds)" for i
  proof (cases i)
    case 0
    with g show ?thesis by (simp add: entry_path_def)
  next
    case (Suc j)
    with that have "j < length ds" by simp
    with c have "grouped ((group_levels_sub ^^ j) (group_levels_sub group_levels))
                   (Path (absolute R) ((parts R @ [n]) @ take (Suc j) ds))"
      by (simp add: grouped_chain_def)
    then show ?thesis using Suc by (simp add: funpow_swap1)
  qed
  then show ?thesis unfolding grouped_chain_def by blast
qed

lemma dir_ok_lift:
  assumes g: "grouped group_levels (entry_path R n)"
    and san: "sanitize n = Inr s"
    and ok: "dir_ok (entry_path R n) (entry_path B s) (group_levels_sub group_levels) x"
  shows "dir_ok R B group_levels x"
proof -
  have "\<exists>ds ss. fst x = Path (absolute B) (parts B @ ss) \<and>
          list_all2 (\<lambda>n s. sanitize n = Inr s) ds ss \<and> grouped_chain R group_levels ds"
    if "snd x = BDir"
  proof -
    from ok that obtain ds ss where
      f: "fst x = Path (absolute B) ((parts B @ [s]) @ ss)"
      and l: "list_all2 (\<lambda>n s. sanitize n = Inr s) ds ss"
      and c: "grouped_chain (entry_path R n) (group_levels_sub group_levels) ds"
      by (auto simp: dir_ok_def)
    from l san have "list_all2 (\<lambda>n s. sanitize n = Inr s) (n # ds) (s # ss)" by simp
    moreover from f have "fst x = Path (absolute B) (parts B @ s # ss)" by simp
    moreover note grouped_chain_lift[OF g c]
    ultimately show ?thesis by blast
  qed
  then show ?thesis by (simp add: dir_ok_def)
qed

lemma build_tree_blob:
  assumes "build_tree sub R B node to_ignore bs = Inr bs'"
  shows "\<exists>fname es. bs' = bs @ [(fname, Blob es)]"
  using assms by (auto simp: build_tree_def split: sum.splits)

lemma pack_files_blob:
  assumes "pack_files content R B all_files bs = Inr bs'"
  shows "\<exists>new. bs' = bs @ new \<and> (\<forall>x\<in>set new. \<exists>es. snd x = Blob es)"
  using assms by (auto simp: pack_files_def split: sum.splits if_splits)

lemma explore_dirs:
  "explore content R B group_levels to_ignore bs = Inr bs' \<Longrightarrow>
     \<exists>new. bs' = bs @ new \<and> (\<forall>x\<in>set new. dir_ok R B group_levels x)"
  and explore_nodes_dirs:
  "explore_nodes nodes R B group_levels to_ignore all_files bs = Inr (all_files', bs'') \<Longrightarrow>
     \<exists>new. bs'' = bs @ new \<and> (\<forall>x\<in>set new. dir_ok R B group_levels x)"
proof (induction content R B group_levels to_ignore bs
    and nodes R B group_levels to_ignore all_files bs
    arbitrary: bs' and all_files' bs'' rule: explore_explore_nodes.induct)
  case (1 content rootdir builddir group_levels to_ignore bs)
  from "1.prems" obtain af bs1 where
    n: "explore_nodes (sort_key fst content) rootdir builddir group_levels to_ignore [] bs
          = Inr (af, bs1)"
    and p: "pack_files content rootdir builddir af bs1 = Inr bs'"
    by (auto split: sum.splits)
  from "1.IH"[OF n] obtain new1 where
    new1: "bs1 = bs @ new1" "\<forall>x\<in>set new1. dir_ok rootdir builddir group_levels x"
    by auto
  from pack_files_blob[OF p] obtain new2 where
    new2: "bs' = bs1 @ new2" "\<forall>x\<in>set new2. \<exists>es. snd x = Blob es" by blast
  from new2(2) have "\<forall>x\<in>set new2. dir_ok rootdir builddir group_levels x"
    by (auto simp: dir_ok_def)
  with new1 new2(1) have "bs' = bs @ (new1 @ new2)"
    "\<forall>x\<in>set (new1 @ new2). dir_ok rootdir builddir group_levels x" by auto
  then show ?case by blast
next
  case (2 rootdir builddir group_levels to_ignore all_files bs)
  then show ?case by simp
next
  case (3 name n rest rootdir builddir group_levels to_ignore all_files bs)
  let ?node = "entry_path rootdir name"
  have rel: "relative_to ?node rootdir = Inr (Path False [name])" by (rule relative_to_entry)
  show ?case
  proof (cases "?node \<in> to_ignore")
    case True
    with "3.prems"(1) have
      "explore_nodes rest rootdir builddir group_levels to_ignore all_files bs
         = Inr (all_files', bs'')" by (simp add: Let_def)
    from "3.IH"(1)[OF refl True this] show ?thesis .
  next
    case False
    note nin = False
    show ?thesis
    proof (cases n)
      case (File readable)
      with "3.prems"(1) nin rel have r:
        "explore_nodes rest rootdir builddir group_levels to_ignore
           (all_files @ [Path False [name]]) bs = Inr (all_files', bs'')"
        by (simp add: Let_def)
      from "3.IH"(2)[OF refl nin rel File r] show ?thesis .
    next
      case (Dir sub)
      show ?thesis
      proof (cases "grouped group_levels ?node")
        case True
        from "3.prems"(1) nin rel Dir True obtain sane bs1 bs2 where
          s: "sanitize (str_of (Path False [name])) = Inr sane"
          and c: "create (joinpath builddir (parse_path sane)) BDir bs = Inr bs1"
          and e: "explore sub ?node (joinpath builddir (parse_path sane))
                    (group_levels_sub group_levels) to_ignore bs1 = Inr bs2"
          and r: "explore_nodes rest rootdir builddir group_levels to_ignore all_files bs2
                    = Inr (all_files', bs'')"
          by (auto simp: Let_def split: sum.splits)
        from s have s': "sanitize name = Inr sane" by (simp add: str_of_single)
        have j: "joinpath builddir (parse_path sane) = entry_path builddir sane"
          using parse_sanitized[OF s'] by (simp add: joinpath_single)
        from "3.IH"(3)[OF refl nin rel Dir True s c e] obtain new2 where
          new2: "bs2 = bs1 @ new2"
          "\<forall>x\<in>set new2. dir_ok ?node (entry_path builddir sane) (group_levels_sub group_levels) x"
          unfolding j by blast
        from "3.IH"(4)[OF refl nin rel Dir True s c e r] obtain new3 where
          new3: "bs'' = bs2 @ new3" "\<forall>x\<in>set new3. dir_ok rootdir builddir group_levels x"
          by blast
        have bs1: "bs1 = bs @ [(entry_path builddir sane, BDir)]"
          using create_appends[OF c] j by simp
        have "list_all2 (\<lambda>n s. sanitize n = Inr s) [name] [sane]" using s' by simp
        moreover have "entry_path builddir sane = Path (absolute builddir) (parts builddir @ [sane])"
          by (simp add: entry_path_def)
        ultimately have d: "dir_ok rootdir builddir group_levels (entry_path builddir sane, BDir)"
          unfolding dir_ok_def using grouped_chain_single[OF True] by fastforce
        have "\<forall>x\<in>set new2. dir_ok rootdir builddir group_levels x"
          using new2(2) dir_ok_lift[OF True s'] by blast
        with d new3(2) have
          "\<forall>x\<in>set ([(entry_path builddir sane, BDir)] @ new2 @ new3).
             dir_ok rootdir builddir group_levels x" by auto
        moreover have "bs'' = bs @ ([(entry_path builddir sane, BDir)] @ new2 @ new3)"
          using bs1 new2(1) new3(1) by simp
        ultimately show ?thesis by blast
      next
        case False
        from "3.prems"(1) nin rel Dir False obtain bs1 where
          b: "build_tree sub rootdir builddir (Path False [name]) to_ignore bs = Inr bs1"
          and r: "explore_nodes rest rootdir builddir group_levels to_ignore all_files bs1
                    = Inr (all_files', bs'')"
          by (auto simp: Let_def split: sum.splits)
        from build_tree_blob[OF b] obtain fname es where
          x: "bs1 = bs @ [(fname, Blob es)]" by blast
        from "3.IH"(5)[OF refl nin rel Dir False b r] obtain new3 where
          new3: "bs'' = bs1 @ new3" "\<forall>x\<in>set new3. dir_ok rootdir builddir group_levels x"
          by blast
        have "bs'' = bs @ ([(fname, Blob es)] @ new3)" using x new3(1) by simp
        moreover have "\<forall>y\<in>set ([(fname, Blob es)] @ new3). dir_ok rootdir builddir group_levels y"
          using new3(2) by (auto simp: dir_ok_def)
        ultimately show ?thesis by blast
      qed
    qed
  qed
qed

lemma grouped_funpow:
  "grouped ((group_levels_sub ^^ j) group_levels) node \<longleftrightarrow>
     (\<exists>(k, v)\<in>set group_levels. (k = node \<or> k \<in> set (parents node)) \<and> (j = 0 \<or> int j < v))"
  unfolding grouped_iff group_levels_sub_funpow by force

lemma explore_depth:
  assumes "explore content rootdir builddir group_levels to_ignore bs = Inr bs'"
  shows "\<exists>new. bs' = bs @ new \<and>
     (\<forall>x\<in>set new. snd x = BDir \<longrightarrow>
        (\<exists>ds ss. fst x = Path (absolute builddir) (parts builddir @ ss) \<and>
           list_all2 (\<lambda>n s. sanitize n = Inr s) ds ss \<and> ds \<noteq> [] \<and>
           (\<forall>i<length ds. \<exists>(k, v)\<in>set group_levels.
              (k = Path (absolute rootdir) (parts rootdir @ take (Suc i) ds) \<or>
               k \<in> set (parents (Path (absolute rootdir) (parts rootdir @ take (Suc i) ds)))) \<and>
              (i = 0 \<or> int i < v))))"
proof -
  from explore_dirs[OF assms] obtain new where
    new: "bs' = bs @ new" and ok: "\<forall>x\<in>set new. dir_ok rootdir builddir group_levels x" by blast
  show ?thesis
    using new ok unfolding dir_ok_def grouped_chain_def grouped_funpow by blast
qed

text \<open>
  Claim C4, as stated: a directory is grouped while its key has a positive budget, and is
  archived as one leaf blob when its key is absent or its budget is exhausted. The test
  for grouping looks at the keys only, never at the values: with the budget 0 for
  \<open>/data/p\<close> the directory is still grouped, and not archived as the leaf blob
  \<open>/build/p.tar.bz2\<close> that the absent key gives.
\<close>

theorem explore_grouping_counterexample:
  "explore [(ascii ''p'', Dir [(ascii ''a'', Dir [(ascii ''x'', File True)])])]
     (Path True [ascii ''data'']) (Path True [ascii ''build''])
     [(Path True [ascii ''data'', ascii ''p''], 0)] {} [(Path True [ascii ''build''], BDir)]
   = Inr [(Path True [ascii ''build''], BDir),
          (Path True [ascii ''build'', ascii ''p''], BDir),
          (Path True [ascii ''build'', ascii ''p'', ascii ''a.tar.bz2''],
           Blob [(ascii ''a/x'', Path True [ascii ''data'', ascii ''p'', ascii ''a'', ascii ''x''])])] \<and>
   explore [(ascii ''p'', Dir [(ascii ''a'', Dir [(ascii ''x'', File True)])])]
     (Path True [ascii ''data'']) (Path True [ascii ''build''])
     [] {} [(Path True [ascii ''build''], BDir)]
   = Inr [(Path True [ascii ''build''], BDir),
          (Path True [ascii ''build'', ascii ''p.tar.bz2''],
           Blob [(ascii ''p/a/x'', Path True [ascii ''data'', ascii ''p'', ascii ''a'', ascii ''x''])])]"
  by (simp add: path_eval store_eval explore_eval sanitize_eval)

text \<open>
  Claim C4, amended: for a directory \<open>name\<close> in the listing of \<open>rootdir\<close> that is not
  ignored, \<open>explore\<close> groups it exactly when some key of \<open>group_levels\<close> is the directory
  or one of its parents, whatever the value of the key. When it is grouped, \<open>explore\<close>
  creates the directory of the sanitized name in the build directory and explores the
  directory into it, with the keys whose value is above 1, each value less by 1. When it
  is not grouped, one blob is added, under the name that \<open>_get_name\<close> gives in the build
  directory, with the entries of the walk of the directory. After \<open>j\<close> such steps a key
  is left exactly when \<open>j\<close> is 0 or its value is above \<open>j\<close>. And whenever \<open>explore\<close>
  returns, every directory it has added to the build area is the build directory followed
  by what \<open>sanitize\<close> returns for some directory names \<open>ds\<close>, one by one, where for every
  \<open>i\<close> below the length of \<open>ds\<close> some key is the root followed by the first \<open>i + 1\<close> names of
  \<open>ds\<close>, or a parent of it, and has a value above \<open>i\<close> unless \<open>i\<close> is 0: under a key that
  is a directory of the root, of value \<open>v\<close>, no directory is added deeper than \<open>v\<close> levels,
  and than one level when \<open>v\<close> is below 1.
\<close>

theorem explore_grouping:
  assumes "entry_path rootdir name \<notin> to_ignore"
  shows "(grouped group_levels (entry_path rootdir name) \<longleftrightarrow>
            (\<exists>(k, v)\<in>set group_levels.
               k = entry_path rootdir name \<or> k \<in> set (parents (entry_path rootdir name)))) \<and>
         (grouped group_levels (entry_path rootdir name) \<longrightarrow>
            explore_nodes ((name, Dir sub) # rest) rootdir builddir group_levels to_ignore
              all_files bs =
              (case sanitize name of
                 Inl e \<Rightarrow> Inl e
               | Inr sane \<Rightarrow>
                   (case create (entry_path builddir sane) BDir bs of
                      Inl e \<Rightarrow> Inl e
                    | Inr bs1 \<Rightarrow>
                        (case explore sub (entry_path rootdir name) (entry_path builddir sane)
                                (map (\<lambda>(k, v). (k, v - 1))
                                   (filter (\<lambda>(k, v). 1 < v) group_levels)) to_ignore bs1 of
                           Inl e \<Rightarrow> Inl e
                         | Inr bs2 \<Rightarrow>
                             explore_nodes rest rootdir builddir group_levels to_ignore
                               all_files bs2)))) \<and>
         (\<not> grouped group_levels (entry_path rootdir name) \<longrightarrow>
            explore_nodes ((name, Dir sub) # rest) rootdir builddir group_levels to_ignore
              all_files bs =
              (case sanitize name of
                 Inl e \<Rightarrow> Inl e
               | Inr sane \<Rightarrow>
                   (case get_name sane builddir bs of
                      Inl e \<Rightarrow> Inl e
                    | Inr fname \<Rightarrow>
                        (case create fname (Blob []) bs of
                           Inl e \<Rightarrow> Inl e
                         | Inr opened \<Rightarrow>
                             (case walk rootdir (entry_path rootdir name) sub to_ignore of
                                Inl e \<Rightarrow> Inl e
                              | Inr es \<Rightarrow>
                                  explore_nodes rest rootdir builddir group_levels to_ignore
                                    all_files (bs @ [(fname, Blob es)])))))) \<and>
         (\<forall>j. (group_levels_sub ^^ j) group_levels =
                map (\<lambda>(k, v). (k, v - int j))
                  (filter (\<lambda>(k, v). j = 0 \<or> int j < v) group_levels)) \<and>
         (explore content rootdir builddir group_levels to_ignore bs = Inr bs' \<longrightarrow>
            (\<exists>new. bs' = bs @ new \<and>
               (\<forall>x\<in>set new. snd x = BDir \<longrightarrow>
                  (\<exists>ds ss. fst x = Path (absolute builddir) (parts builddir @ ss) \<and>
                     list_all2 (\<lambda>n s. sanitize n = Inr s) ds ss \<and> ds \<noteq> [] \<and>
                     (\<forall>i<length ds. \<exists>(k, v)\<in>set group_levels.
                        (k = Path (absolute rootdir) (parts rootdir @ take (Suc i) ds) \<or>
                         k \<in> set (parents (Path (absolute rootdir)
                                              (parts rootdir @ take (Suc i) ds)))) \<and>
                        (i = 0 \<or> int i < v))))))"
proof (intro conjI impI allI)
  show "grouped group_levels (entry_path rootdir name) \<longleftrightarrow>
          (\<exists>(k, v)\<in>set group_levels.
             k = entry_path rootdir name \<or> k \<in> set (parents (entry_path rootdir name)))"
    by (rule grouped_iff)
next
  assume "grouped group_levels (entry_path rootdir name)"
  from explore_nodes_grouped[OF assms this]
  show "explore_nodes ((name, Dir sub) # rest) rootdir builddir group_levels to_ignore
          all_files bs =
          (case sanitize name of
             Inl e \<Rightarrow> Inl e
           | Inr sane \<Rightarrow>
               (case create (entry_path builddir sane) BDir bs of
                  Inl e \<Rightarrow> Inl e
                | Inr bs1 \<Rightarrow>
                    (case explore sub (entry_path rootdir name) (entry_path builddir sane)
                            (map (\<lambda>(k, v). (k, v - 1))
                               (filter (\<lambda>(k, v). 1 < v) group_levels)) to_ignore bs1 of
                       Inl e \<Rightarrow> Inl e
                     | Inr bs2 \<Rightarrow>
                         explore_nodes rest rootdir builddir group_levels to_ignore
                           all_files bs2)))"
    unfolding group_levels_sub_eq .
next
  assume "\<not> grouped group_levels (entry_path rootdir name)"
  from explore_nodes_leaf[OF assms this]
  show "explore_nodes ((name, Dir sub) # rest) rootdir builddir group_levels to_ignore
          all_files bs =
          (case sanitize name of
             Inl e \<Rightarrow> Inl e
           | Inr sane \<Rightarrow>
               (case get_name sane builddir bs of
                  Inl e \<Rightarrow> Inl e
                | Inr fname \<Rightarrow>
                    (case create fname (Blob []) bs of
                       Inl e \<Rightarrow> Inl e
                     | Inr opened \<Rightarrow>
                         (case walk rootdir (entry_path rootdir name) sub to_ignore of
                            Inl e \<Rightarrow> Inl e
                          | Inr es \<Rightarrow>
                              explore_nodes rest rootdir builddir group_levels to_ignore
                                all_files (bs @ [(fname, Blob es)])))))" .
next
  fix j
  show "(group_levels_sub ^^ j) group_levels =
          map (\<lambda>(k, v). (k, v - int j))
            (filter (\<lambda>(k, v). j = 0 \<or> int j < v) group_levels)"
    by (rule group_levels_sub_funpow)
next
  assume "explore content rootdir builddir group_levels to_ignore bs = Inr bs'"
  then show "\<exists>new. bs' = bs @ new \<and>
     (\<forall>x\<in>set new. snd x = BDir \<longrightarrow>
        (\<exists>ds ss. fst x = Path (absolute builddir) (parts builddir @ ss) \<and>
           list_all2 (\<lambda>n s. sanitize n = Inr s) ds ss \<and> ds \<noteq> [] \<and>
           (\<forall>i<length ds. \<exists>(k, v)\<in>set group_levels.
              (k = Path (absolute rootdir) (parts rootdir @ take (Suc i) ds) \<or>
               k \<in> set (parents (Path (absolute rootdir)
                                    (parts rootdir @ take (Suc i) ds)))) \<and>
              (i = 0 \<or> int i < v))))"
    by (rule explore_depth)
qed

theorem explore_grouping_witness:
  "entry_path (Path True [ascii ''data'']) (ascii ''p'') \<notin> {} \<and>
   grouped [(Path True [ascii ''data'', ascii ''p''], 2)]
     (entry_path (Path True [ascii ''data'']) (ascii ''p'')) \<and>
   explore_nodes
     [(ascii ''p'', Dir [(ascii ''a'', Dir [(ascii ''b'', Dir [(ascii ''x'', File True)])])])]
     (Path True [ascii ''data'']) (Path True [ascii ''build''])
     [(Path True [ascii ''data'', ascii ''p''], 2)] {} [] [(Path True [ascii ''build''], BDir)]
   = Inr ([], [(Path True [ascii ''build''], BDir),
          (Path True [ascii ''build'', ascii ''p''], BDir),
          (Path True [ascii ''build'', ascii ''p'', ascii ''a''], BDir),
          (Path True [ascii ''build'', ascii ''p'', ascii ''a'', ascii ''b.tar.bz2''],
           Blob [(ascii ''b/x'',
                  Path True [ascii ''data'', ascii ''p'', ascii ''a'', ascii ''b'', ascii ''x''])])]) \<and>
   group_levels_sub [(Path True [ascii ''data'', ascii ''p''], 2)]
     = [(Path True [ascii ''data'', ascii ''p''], 1)] \<and>
   group_levels_sub (group_levels_sub [(Path True [ascii ''data'', ascii ''p''], 2)]) = []"
  using explore_grouping[of "Path True [ascii ''data'']" "ascii ''p''" "{}"
      "[(Path True [ascii ''data'', ascii ''p''], 2)]"
      "[(ascii ''a'', Dir [(ascii ''b'', Dir [(ascii ''x'', File True)])])]" "[]"
      "Path True [ascii ''build'']" "[]" "[(Path True [ascii ''build''], BDir)]", THEN conjunct2, THEN conjunct1]
  by (simp add: path_eval store_eval explore_eval sanitize_eval)

section \<open>The configuration and \<open>main\<close>\<close>
























section \<open>The claims about the configuration\<close>





end
